theory Spec2Isabelle
  imports Complex_Main "HOL-Library.AList" "HOL-Library.Multiset"
begin

section \<open>JavaScript values, objects and the store\<close>

text \<open>
  The converter of \<^verbatim>\<open>src/Array2Tree.ts\<close> works on plain JavaScript objects that it
  mutates in place. Objects and arrays live in a store (a list of cells, an address is an
  index); a value is a primitive or a reference into the store.

  Numbers: \<open>Fin r\<close> is a finite double with value \<open>r\<close> (negative zero is identified with
  zero), the three special values are explicit. The result of an arithmetic operation on
  finite numbers is the rounding \<open>rnd\<close> of the exact rational result, except where the
  result is exact whatever the rounding (a zero or a unit operand); the rounding
  function, the conversions between numbers and strings and the conversion of an object to
  a primitive belong to the JavaScript engine, not to the repository, and are parameters
  (\<open>jsrt\<close>) of the model: every theorem below holds for every such engine.

  Property lookup is lookup of an own property: records are plain data and the properties
  inherited from \<^verbatim>\<open>Object.prototype\<close> are not modelled.
\<close>

type_synonym addr = nat

datatype jsnum = NaN | PInf | NInf | Fin rat

datatype jsval = JUndefined | JNull | JBool bool | JNum jsnum | JStr string | JRef addr

datatype cell = Obj "(string \<times> jsval) list" | Arr "jsval list"

type_synonym heap = "cell list"

record jsrt =
  rnd :: "rat \<Rightarrow> jsnum"
  num_to_str :: "jsnum \<Rightarrow> string"
  str_to_num :: "string \<Rightarrow> jsnum"
  ref_to_str :: "heap \<Rightarrow> addr \<Rightarrow> string"

definition get_field :: "heap \<Rightarrow> addr \<Rightarrow> string \<Rightarrow> jsval" where
  "get_field h a k =
     (if a < length h then
        (case h ! a of
           Obj fs \<Rightarrow> (case map_of fs k of Some v \<Rightarrow> v | None \<Rightarrow> JUndefined)
         | Arr xs \<Rightarrow> JUndefined)
      else JUndefined)"

definition set_field :: "heap \<Rightarrow> addr \<Rightarrow> string \<Rightarrow> jsval \<Rightarrow> heap" where
  "set_field h a k v =
     (if a < length h then
        (case h ! a of
           Obj fs \<Rightarrow> h[a := Obj (AList.update k v fs)]
         | Arr xs \<Rightarrow> h)
      else h)"

definition num_of_nat :: "nat \<Rightarrow> jsval" where
  "num_of_nat n = JNum (Fin (of_nat n))"

subsection \<open>Equality, truthiness and coercions\<close>

text \<open>\<^verbatim>\<open>x === y\<close>: no coercion, \<^verbatim>\<open>NaN\<close> differs from itself, objects compare by
  identity.\<close>

fun strict_eq :: "jsval \<Rightarrow> jsval \<Rightarrow> bool" where
  "strict_eq JUndefined JUndefined = True"
| "strict_eq JNull JNull = True"
| "strict_eq (JBool a) (JBool b) = (a = b)"
| "strict_eq (JNum a) (JNum b) = (a \<noteq> NaN \<and> a = b)"
| "strict_eq (JStr a) (JStr b) = (a = b)"
| "strict_eq (JRef a) (JRef b) = (a = b)"
| "strict_eq _ _ = False"

text \<open>\<^verbatim>\<open>x == null\<close> and \<^verbatim>\<open>x == undefined\<close> hold exactly for the two absent values.\<close>

definition loose_eq_null :: "jsval \<Rightarrow> bool" where
  "loose_eq_null v = (v = JNull \<or> v = JUndefined)"

text \<open>\<^verbatim>\<open>x == ''\<close>: a string is compared as it is, a number or boolean with the number
  of the empty string (zero), an object through its primitive.\<close>

fun loose_eq_empty :: "jsrt \<Rightarrow> heap \<Rightarrow> jsval \<Rightarrow> bool" where
  "loose_eq_empty rt h JUndefined = False"
| "loose_eq_empty rt h JNull = False"
| "loose_eq_empty rt h (JBool b) = (\<not> b)"
| "loose_eq_empty rt h (JNum n) = (n = Fin 0)"
| "loose_eq_empty rt h (JStr s) = (s = [])"
| "loose_eq_empty rt h (JRef a) = (ref_to_str rt h a = [])"

fun truthy :: "jsval \<Rightarrow> bool" where
  "truthy JUndefined = False"
| "truthy JNull = False"
| "truthy (JBool b) = b"
| "truthy (JNum n) = (n \<noteq> Fin 0 \<and> n \<noteq> NaN)"
| "truthy (JStr s) = (s \<noteq> [])"
| "truthy (JRef a) = True"

text \<open>\<^verbatim>\<open>a || b\<close>\<close>

definition js_or :: "jsval \<Rightarrow> jsval \<Rightarrow> jsval" where
  "js_or a b = (if truthy a then a else b)"

fun to_primitive :: "jsrt \<Rightarrow> heap \<Rightarrow> jsval \<Rightarrow> jsval" where
  "to_primitive rt h (JRef a) = JStr (ref_to_str rt h a)"
| "to_primitive rt h v = v"

fun to_number :: "jsrt \<Rightarrow> jsval \<Rightarrow> jsnum" where
  "to_number rt JUndefined = NaN"
| "to_number rt JNull = Fin 0"
| "to_number rt (JBool b) = (if b then Fin 1 else Fin 0)"
| "to_number rt (JNum n) = n"
| "to_number rt (JStr s) = str_to_num rt s"
| "to_number rt (JRef a) = NaN"

fun to_string :: "jsrt \<Rightarrow> jsval \<Rightarrow> string" where
  "to_string rt JUndefined = ''undefined''"
| "to_string rt JNull = ''null''"
| "to_string rt (JBool b) = (if b then ''true'' else ''false'')"
| "to_string rt (JNum n) = num_to_str rt n"
| "to_string rt (JStr s) = s"
| "to_string rt (JRef a) = []"

fun is_str :: "jsval \<Rightarrow> bool" where
  "is_str (JStr s) = True"
| "is_str _ = False"

subsection \<open>Arithmetic\<close>

fun num_add :: "jsrt \<Rightarrow> jsnum \<Rightarrow> jsnum \<Rightarrow> jsnum" where
  "num_add rt NaN _ = NaN"
| "num_add rt _ NaN = NaN"
| "num_add rt PInf NInf = NaN"
| "num_add rt NInf PInf = NaN"
| "num_add rt PInf _ = PInf"
| "num_add rt _ PInf = PInf"
| "num_add rt NInf _ = NInf"
| "num_add rt _ NInf = NInf"
| "num_add rt (Fin a) (Fin b) =
     (if a = 0 then Fin b else if b = 0 then Fin a else rnd rt (a + b))"

fun num_neg :: "jsnum \<Rightarrow> jsnum" where
  "num_neg NaN = NaN"
| "num_neg PInf = NInf"
| "num_neg NInf = PInf"
| "num_neg (Fin a) = Fin (- a)"

definition inf_signed :: "bool \<Rightarrow> jsnum" where
  "inf_signed neg = (if neg then NInf else PInf)"

fun num_mul :: "jsrt \<Rightarrow> jsnum \<Rightarrow> jsnum \<Rightarrow> jsnum" where
  "num_mul rt NaN _ = NaN"
| "num_mul rt _ NaN = NaN"
| "num_mul rt (Fin a) (Fin b) =
     (if a = 0 \<or> b = 0 then Fin 0 else if a = 1 then Fin b else if b = 1 then Fin a
      else rnd rt (a * b))"
| "num_mul rt (Fin a) PInf = (if a = 0 then NaN else inf_signed (a < 0))"
| "num_mul rt (Fin a) NInf = (if a = 0 then NaN else inf_signed (0 < a))"
| "num_mul rt PInf (Fin b) = (if b = 0 then NaN else inf_signed (b < 0))"
| "num_mul rt NInf (Fin b) = (if b = 0 then NaN else inf_signed (0 < b))"
| "num_mul rt PInf PInf = PInf"
| "num_mul rt NInf NInf = PInf"
| "num_mul rt PInf NInf = NInf"
| "num_mul rt NInf PInf = NInf"

text \<open>Division: a finite number divided by zero is an infinity of its sign, zero by zero
  and infinity by infinity are \<^verbatim>\<open>NaN\<close>.\<close>

fun num_div :: "jsrt \<Rightarrow> jsnum \<Rightarrow> jsnum \<Rightarrow> jsnum" where
  "num_div rt NaN _ = NaN"
| "num_div rt _ NaN = NaN"
| "num_div rt (Fin a) (Fin b) =
     (if b = 0 then (if a = 0 then NaN else inf_signed (a < 0))
      else if a = 0 then Fin 0 else if b = 1 then Fin a else rnd rt (a / b))"
| "num_div rt (Fin a) PInf = Fin 0"
| "num_div rt (Fin a) NInf = Fin 0"
| "num_div rt PInf (Fin b) = inf_signed (b < 0)"
| "num_div rt NInf (Fin b) = inf_signed (\<not> b < 0)"
| "num_div rt PInf PInf = NaN"
| "num_div rt NInf NInf = NaN"
| "num_div rt PInf NInf = NaN"
| "num_div rt NInf PInf = NaN"

text \<open>\<^verbatim>\<open>a + b\<close>: concatenation as soon as one primitive is a string, addition of the
  numbers otherwise. \<^verbatim>\<open>a / b\<close> and \<^verbatim>\<open>a * b\<close> always work on the numbers.\<close>

definition js_add :: "jsrt \<Rightarrow> heap \<Rightarrow> jsval \<Rightarrow> jsval \<Rightarrow> jsval" where
  "js_add rt h a b =
     (let pa = to_primitive rt h a; pb = to_primitive rt h b in
      if is_str pa \<or> is_str pb then JStr (to_string rt pa @ to_string rt pb)
      else JNum (num_add rt (to_number rt pa) (to_number rt pb)))"

definition js_div :: "jsrt \<Rightarrow> heap \<Rightarrow> jsval \<Rightarrow> jsval \<Rightarrow> jsval" where
  "js_div rt h a b =
     JNum (num_div rt (to_number rt (to_primitive rt h a)) (to_number rt (to_primitive rt h b)))"

definition js_mul :: "jsrt \<Rightarrow> heap \<Rightarrow> jsval \<Rightarrow> jsval \<Rightarrow> jsval" where
  "js_mul rt h a b =
     JNum (num_mul rt (to_number rt (to_primitive rt h a)) (to_number rt (to_primitive rt h b)))"

section \<open>The matching rules\<close>

text \<open>The filter of \<^verbatim>\<open>array2Tree\<close> and \<^verbatim>\<open>array2SortByTree\<close> (four disjuncts) and the
  filter of \<^verbatim>\<open>array2SortAndWeight\<close> (three disjuncts).\<close>

definition matches4 :: "jsrt \<Rightarrow> heap \<Rightarrow> string \<Rightarrow> jsval \<Rightarrow> addr \<Rightarrow> bool" where
  "matches4 rt h parentKey startWith x =
     (strict_eq (get_field h x parentKey) startWith \<or>
      (loose_eq_null startWith \<and> loose_eq_null (get_field h x parentKey)) \<or>
      (loose_eq_null startWith \<and> loose_eq_null (get_field h x parentKey)) \<or>
      (loose_eq_null startWith \<and> loose_eq_empty rt h (get_field h x parentKey)))"

definition matches3 :: "heap \<Rightarrow> string \<Rightarrow> jsval \<Rightarrow> addr \<Rightarrow> bool" where
  "matches3 h parentKey startWith x =
     (strict_eq (get_field h x parentKey) startWith \<or>
      (loose_eq_null startWith \<and> loose_eq_null (get_field h x parentKey)) \<or>
      (loose_eq_null startWith \<and> loose_eq_null (get_field h x parentKey)))"

text \<open>The leaf branch: the first element of the list whose identifier is strictly equal
  to \<open>startWith\<close> gets \<^verbatim>\<open>$is_leaf = 1\<close>.\<close>

definition mark_leaf :: "heap \<Rightarrow> string \<Rightarrow> jsval \<Rightarrow> addr list \<Rightarrow> heap" where
  "mark_leaf h idKey startWith xs =
     (case List.find (\<lambda>x. strict_eq (get_field h x idKey) startWith) xs of
        Some x \<Rightarrow> set_field h x ''$is_leaf'' (num_of_nat 1)
      | None \<Rightarrow> h)"

text \<open>\<^verbatim>\<open>(parentIndex ? parentIndex + '.' : '') + node.$index\<close>\<close>

definition tree_index :: "jsrt \<Rightarrow> string option \<Rightarrow> nat \<Rightarrow> string" where
  "tree_index rt parentIndex i =
     (case parentIndex of
        None \<Rightarrow> []
      | Some p \<Rightarrow> (if p \<noteq> [] then p @ ''.'' else [])) @ num_to_str rt (Fin (of_nat i))"

section \<open>array2SortByTree\<close>

text \<open>
  The recursion of the source is bounded only by the test on the length of the
  accumulator, which the calls themselves change; the model takes the depth of the call
  stack as fuel and returns \<open>None\<close> when it is used up. The state is the store and the
  accumulator \<^verbatim>\<open>arrOut\<close>; \<^verbatim>\<open>arrIn\<close> is the list of the references held by the input
  array, which is never written.
\<close>

function array2SortByTree ::
    "nat \<Rightarrow> jsrt \<Rightarrow> addr list \<Rightarrow> string \<Rightarrow> string \<Rightarrow> jsval \<Rightarrow> nat \<Rightarrow> heap \<times> addr list
      \<Rightarrow> string option \<Rightarrow> (heap \<times> addr list) option"
  and sortByTree_each ::
    "nat \<Rightarrow> jsrt \<Rightarrow> addr list \<Rightarrow> string \<Rightarrow> string \<Rightarrow> nat \<Rightarrow> string option \<Rightarrow> addr list \<Rightarrow> nat
      \<Rightarrow> heap \<times> addr list \<Rightarrow> (heap \<times> addr list) option"
where
  "array2SortByTree 0 rt arrIn idKey parentKey startWith level s parentIndex = None"
| "array2SortByTree (Suc fuel) rt arrIn idKey parentKey startWith level s parentIndex =
     (if length (snd s) \<le> length arrIn \<and> idKey \<noteq> [] \<and> parentKey \<noteq> [] then
        (let parents = filter (matches4 rt (fst s) parentKey startWith) arrIn in
         if parents \<noteq> [] then
           sortByTree_each fuel rt arrIn idKey parentKey level parentIndex parents 0 s
         else Some (mark_leaf (fst s) idKey startWith (snd s), snd s))
      else Some s)"
| "sortByTree_each fuel rt arrIn idKey parentKey level parentIndex [] idx s = Some s"
| "sortByTree_each fuel rt arrIn idKey parentKey level parentIndex (el # els) idx s =
     (let h1 = set_field (fst s) el ''$level'' (num_of_nat level);
          h2 = set_field h1 el ''$index'' (num_of_nat (idx + 1));
          ti = tree_index rt parentIndex (idx + 1);
          h3 = set_field h2 el ''$tree_index'' (JStr ti)
      in case array2SortByTree fuel rt arrIn idKey parentKey (get_field h3 el idKey)
                (level + 1) (h3, snd s @ [el]) (Some ti) of
           None \<Rightarrow> None
         | Some s' \<Rightarrow>
             sortByTree_each fuel rt arrIn idKey parentKey level parentIndex els (idx + 1) s')"
  by pat_completeness auto
termination
  by (relation "measures
        [(\<lambda>x. case x of Inl (f, _) \<Rightarrow> 2 * f | Inr (f, _) \<Rightarrow> 2 * f + 1),
         (\<lambda>x. case x of Inl _ \<Rightarrow> 0 | Inr (_, _, _, _, _, _, _, els, _) \<Rightarrow> length els)]")
     auto

section \<open>array2SortAndWeight\<close>

text \<open>\<^verbatim>\<open>parents.reduce((sum, obj) => sum + (obj[weightKey] || 0), 0)\<close>\<close>

definition sum_weight :: "jsrt \<Rightarrow> heap \<Rightarrow> string \<Rightarrow> addr list \<Rightarrow> jsval" where
  "sum_weight rt h weightKey parents =
     foldl (\<lambda>sum obj. js_add rt h sum (js_or (get_field h obj weightKey) (num_of_nat 0)))
       (num_of_nat 0) parents"

function array2SortAndWeight ::
    "nat \<Rightarrow> jsrt \<Rightarrow> addr list \<Rightarrow> string \<Rightarrow> string \<Rightarrow> string \<Rightarrow> jsval \<Rightarrow> nat \<Rightarrow> jsnum
      \<Rightarrow> heap \<times> addr list \<Rightarrow> string option \<Rightarrow> (heap \<times> addr list) option"
  and sortAndWeight_each ::
    "nat \<Rightarrow> jsrt \<Rightarrow> addr list \<Rightarrow> string \<Rightarrow> string \<Rightarrow> string \<Rightarrow> nat \<Rightarrow> jsnum \<Rightarrow> string option
      \<Rightarrow> jsval \<Rightarrow> addr list \<Rightarrow> nat \<Rightarrow> heap \<times> addr list \<Rightarrow> (heap \<times> addr list) option"
where
  "array2SortAndWeight 0 rt arrIn idKey parentKey weightKey startWith level rootWeight s
     parentIndex = None"
| "array2SortAndWeight (Suc fuel) rt arrIn idKey parentKey weightKey startWith level rootWeight s
     parentIndex =
     (if length (snd s) \<le> length arrIn then
        (let parents = filter (matches3 (fst s) parentKey startWith) arrIn in
         if parents \<noteq> [] then
           (let sumWeight = sum_weight rt (fst s) weightKey parents in
            sortAndWeight_each fuel rt arrIn idKey parentKey weightKey level rootWeight
              parentIndex sumWeight parents 0 s)
         else Some (mark_leaf (fst s) idKey startWith (snd s), snd s))
      else Some s)"
| "sortAndWeight_each fuel rt arrIn idKey parentKey weightKey level rootWeight parentIndex
     sumWeight [] idx s = Some s"
| "sortAndWeight_each fuel rt arrIn idKey parentKey weightKey level rootWeight parentIndex
     sumWeight (el # els) idx s =
     (let h1 = set_field (fst s) el ''$sum_weight'' sumWeight;
          h2 = set_field h1 el ''$weight_percent''
                 (js_div rt h1 (js_or (get_field h1 el weightKey) (num_of_nat 0)) sumWeight);
          h3 = set_field h2 el ''$parent_weight_percent'' (JNum rootWeight);
          h4 = set_field h3 el ''$root_weight_percent''
                 (js_mul rt h3 (get_field h3 el ''$parent_weight_percent'')
                    (get_field h3 el ''$weight_percent''));
          h5 = set_field h4 el ''$level'' (num_of_nat level);
          h6 = set_field h5 el ''$index'' (num_of_nat (idx + 1));
          ti = tree_index rt parentIndex (idx + 1);
          h7 = set_field h6 el ''$tree_index'' (JStr ti)
      in case array2SortAndWeight fuel rt arrIn idKey parentKey weightKey (get_field h7 el idKey)
                (level + 1) (to_number rt (get_field h7 el ''$root_weight_percent''))
                (h7, snd s @ [el]) (Some ti) of
           None \<Rightarrow> None
         | Some s' \<Rightarrow>
             sortAndWeight_each fuel rt arrIn idKey parentKey weightKey level rootWeight
               parentIndex sumWeight els (idx + 1) s')"
  by pat_completeness auto
termination
  by (relation "measures
        [(\<lambda>x. case x of Inl (f, _) \<Rightarrow> 2 * f | Inr (f, _) \<Rightarrow> 2 * f + 1),
         (\<lambda>x. case x of Inl _ \<Rightarrow> 0
             | Inr (_, _, _, _, _, _, _, _, _, _, els, _) \<Rightarrow> length els)]")
     auto

section \<open>array2Tree\<close>

text \<open>
  \<^verbatim>\<open>array2Tree\<close> has no bound on its recursion at all; the fuel is the depth of the call
  stack again. The array that \<^verbatim>\<open>filter\<close> creates and the empty array of \<^verbatim>\<open>|| []\<close> are
  new cells of the store; the call returns a reference to the former, or \<^verbatim>\<open>undefined\<close>.
\<close>

definition alloc :: "heap \<Rightarrow> cell \<Rightarrow> addr \<times> heap" where
  "alloc h c = (length h, h @ [c])"

function array2Tree ::
    "nat \<Rightarrow> jsrt \<Rightarrow> addr list \<Rightarrow> string \<Rightarrow> string \<Rightarrow> jsval \<Rightarrow> nat \<Rightarrow> heap
      \<Rightarrow> (jsval \<times> heap) option"
  and tree_each ::
    "nat \<Rightarrow> jsrt \<Rightarrow> addr list \<Rightarrow> string \<Rightarrow> string \<Rightarrow> nat \<Rightarrow> addr list \<Rightarrow> heap \<Rightarrow> heap option"
where
  "array2Tree 0 rt arrIn idKey parentKey startWith level h = None"
| "array2Tree (Suc fuel) rt arrIn idKey parentKey startWith level h =
     (let roots = filter (matches4 rt h parentKey startWith) arrIn in
      if roots \<noteq> [] then
        (let (r, h0) = alloc h (Arr (map JRef roots)) in
         case tree_each fuel rt arrIn idKey parentKey level roots h0 of
           None \<Rightarrow> None
         | Some h' \<Rightarrow> Some (JRef r, h'))
      else Some (JUndefined, mark_leaf h idKey startWith arrIn))"
| "tree_each fuel rt arrIn idKey parentKey level [] h = Some h"
| "tree_each fuel rt arrIn idKey parentKey level (el # els) h =
     (let h1 = set_field h el ''$level'' (num_of_nat level) in
      case array2Tree fuel rt arrIn idKey parentKey (get_field h1 el idKey) (level + 1) h1 of
        None \<Rightarrow> None
      | Some (sub, h2) \<Rightarrow>
          (let (c, h3) = (if truthy sub then (sub, h2)
                          else (let (e, h') = alloc h2 (Arr []) in (JRef e, h')))
           in tree_each fuel rt arrIn idKey parentKey level els (set_field h3 el ''$children'' c)))"
  by pat_completeness auto
termination
  by (relation "measures
        [(\<lambda>x. case x of Inl (f, _) \<Rightarrow> 2 * f | Inr (f, _) \<Rightarrow> 2 * f + 1),
         (\<lambda>x. case x of Inl _ \<Rightarrow> 0 | Inr (_, _, _, _, _, _, els, _) \<Rightarrow> length els)]")
     auto

section \<open>tree2Array\<close>

datatype error = TypeError | SyntaxError

subsection \<open>Property access on any value, object spread\<close>

definition index_key :: "jsrt \<Rightarrow> nat \<Rightarrow> string" where
  "index_key rt i = num_to_str rt (Fin (of_nat i))"

definition indexed :: "jsrt \<Rightarrow> jsval list \<Rightarrow> (string \<times> jsval) list" where
  "indexed rt xs = map (\<lambda>(i, x). (index_key rt i, x)) (enumerate 0 xs)"

definition lookup_prop :: "(string \<times> jsval) list \<Rightarrow> string \<Rightarrow> jsval" where
  "lookup_prop fs k = (case map_of fs k of Some v \<Rightarrow> v | None \<Rightarrow> JUndefined)"

text \<open>\<^verbatim>\<open>{ ...el }\<close>: the own enumerable properties of the value.\<close>

fun own_props :: "jsrt \<Rightarrow> heap \<Rightarrow> jsval \<Rightarrow> (string \<times> jsval) list" where
  "own_props rt h (JRef a) =
     (if a < length h then (case h ! a of Obj fs \<Rightarrow> fs | Arr xs \<Rightarrow> indexed rt xs) else [])"
| "own_props rt h (JStr s) = indexed rt (map (\<lambda>c. JStr [c]) s)"
| "own_props rt h v = []"

text \<open>\<^verbatim>\<open>el[key]\<close>: reading a property of \<^verbatim>\<open>null\<close> or \<^verbatim>\<open>undefined\<close> throws.\<close>

fun js_get :: "jsrt \<Rightarrow> heap \<Rightarrow> jsval \<Rightarrow> string \<Rightarrow> error + jsval" where
  "js_get rt h JUndefined k = Inl TypeError"
| "js_get rt h JNull k = Inl TypeError"
| "js_get rt h (JBool b) k = Inr JUndefined"
| "js_get rt h (JNum n) k = Inr JUndefined"
| "js_get rt h (JStr s) k =
     Inr (if k = ''length'' then num_of_nat (length s)
          else lookup_prop (indexed rt (map (\<lambda>c. JStr [c]) s)) k)"
| "js_get rt h (JRef a) k =
     Inr (if a < length h then
            (case h ! a of
               Obj fs \<Rightarrow> lookup_prop fs k
             | Arr xs \<Rightarrow> (if k = ''length'' then num_of_nat (length xs)
                          else lookup_prop (indexed rt xs) k))
          else JUndefined)"

definition delete_field :: "heap \<Rightarrow> addr \<Rightarrow> string \<Rightarrow> heap" where
  "delete_field h a k =
     (if a < length h then
        (case h ! a of Obj fs \<Rightarrow> h[a := Obj (AList.delete k fs)] | Arr xs \<Rightarrow> h)
      else h)"

text \<open>The elements \<^verbatim>\<open>forEach\<close> visits; calling it on anything but an array throws.\<close>

fun array_elems :: "heap \<Rightarrow> jsval \<Rightarrow> error + jsval list" where
  "array_elems h (JRef a) =
     (if a < length h then (case h ! a of Arr xs \<Rightarrow> Inr xs | Obj fs \<Rightarrow> Inl TypeError)
      else Inl TypeError)"
| "array_elems h v = Inl TypeError"

subsection \<open>\<^verbatim>\<open>JSON.parse(JSON.stringify(v))\<close>\<close>

datatype json =
  JsNull | JsBool bool | JsNum rat | JsStr string | JsArr "json list"
  | JsObj "(string \<times> json) list"

text \<open>
  \<^verbatim>\<open>JSON.stringify\<close> walks the value with the stack of the objects it is inside of and
  throws on a cycle. \<open>None\<close> is \<^verbatim>\<open>undefined\<close>: left out of an object, \<^verbatim>\<open>null\<close> in an
  array. The non-finite numbers become \<^verbatim>\<open>null\<close>.
\<close>

definition unvisited :: "heap \<Rightarrow> addr list \<Rightarrow> nat" where
  "unvisited h st = card ({..<length h} - set st)"

lemma unvisited_less:
  "a < length h \<Longrightarrow> a \<notin> set st \<Longrightarrow> unvisited h (a # st) < unvisited h st"
  unfolding unvisited_def by (rule psubset_card_mono) auto

function json_val :: "heap \<Rightarrow> addr list \<Rightarrow> jsval \<Rightarrow> error + json option"
  and json_elems :: "heap \<Rightarrow> addr list \<Rightarrow> jsval list \<Rightarrow> error + json list"
  and json_props :: "heap \<Rightarrow> addr list \<Rightarrow> (string \<times> jsval) list \<Rightarrow> error + (string \<times> json) list"
where
  "json_val h stack JUndefined = Inr None"
| "json_val h stack JNull = Inr (Some JsNull)"
| "json_val h stack (JBool b) = Inr (Some (JsBool b))"
| "json_val h stack (JNum n) = Inr (Some (case n of Fin r \<Rightarrow> JsNum r | _ \<Rightarrow> JsNull))"
| "json_val h stack (JStr s) = Inr (Some (JsStr s))"
| "json_val h stack (JRef a) =
     (if a \<in> set stack \<or> length h \<le> a then Inl TypeError
      else (case h ! a of
              Arr xs \<Rightarrow> (case json_elems h (a # stack) xs of
                           Inl e \<Rightarrow> Inl e
                         | Inr js \<Rightarrow> Inr (Some (JsArr js)))
            | Obj fs \<Rightarrow> (case json_props h (a # stack) fs of
                           Inl e \<Rightarrow> Inl e
                         | Inr ps \<Rightarrow> Inr (Some (JsObj ps)))))"
| "json_elems h stack [] = Inr []"
| "json_elems h stack (x # xs) =
     (case json_val h stack x of
        Inl e \<Rightarrow> Inl e
      | Inr j \<Rightarrow> (case json_elems h stack xs of
                   Inl e \<Rightarrow> Inl e
                 | Inr js \<Rightarrow> Inr ((case j of None \<Rightarrow> JsNull | Some v \<Rightarrow> v) # js)))"
| "json_props h stack [] = Inr []"
| "json_props h stack (p # ps) =
     (case json_val h stack (snd p) of
        Inl e \<Rightarrow> Inl e
      | Inr j \<Rightarrow> (case json_props h stack ps of
                   Inl e \<Rightarrow> Inl e
                 | Inr js \<Rightarrow> Inr (case j of None \<Rightarrow> js | Some v \<Rightarrow> (fst p, v) # js)))"
  by pat_completeness auto
termination
  apply (relation "measures
        [(\<lambda>x. case x of
                 Inl (h, st, _) \<Rightarrow> unvisited h st
               | Inr (Inl (h, st, _)) \<Rightarrow> unvisited h st
               | Inr (Inr (h, st, _)) \<Rightarrow> unvisited h st),
         (\<lambda>x. case x of
                 Inl _ \<Rightarrow> 0
               | Inr (Inl (_, _, xs)) \<Rightarrow> Suc (length xs)
               | Inr (Inr (_, _, ps)) \<Rightarrow> Suc (length ps))]")
        apply simp
       apply (simp add: unvisited_less)
      apply (simp add: unvisited_less)
     apply simp_all
  done

fun json_parse :: "json \<Rightarrow> heap \<Rightarrow> jsval \<times> heap"
  and json_parse_elems :: "json list \<Rightarrow> heap \<Rightarrow> jsval list \<times> heap"
  and json_parse_props :: "(string \<times> json) list \<Rightarrow> heap \<Rightarrow> (string \<times> jsval) list \<times> heap"
where
  "json_parse JsNull h = (JNull, h)"
| "json_parse (JsBool b) h = (JBool b, h)"
| "json_parse (JsNum r) h = (JNum (Fin r), h)"
| "json_parse (JsStr s) h = (JStr s, h)"
| "json_parse (JsArr js) h =
     (let (vs, h1) = json_parse_elems js h; (a, h2) = alloc h1 (Arr vs) in (JRef a, h2))"
| "json_parse (JsObj ps) h =
     (let (fs, h1) = json_parse_props ps h; (a, h2) = alloc h1 (Obj fs) in (JRef a, h2))"
| "json_parse_elems [] h = ([], h)"
| "json_parse_elems (j # js) h =
     (let (v, h1) = json_parse j h; (vs, h2) = json_parse_elems js h1 in (v # vs, h2))"
| "json_parse_props [] h = ([], h)"
| "json_parse_props (p # ps) h =
     (let (v, h1) = json_parse (snd p) h; (fs, h2) = json_parse_props ps h1
      in ((fst p, v) # fs, h2))"

text \<open>\<^verbatim>\<open>JSON.parse(undefined)\<close> is a syntax error.\<close>

definition json_roundtrip :: "heap \<Rightarrow> jsval \<Rightarrow> error + jsval \<times> heap" where
  "json_roundtrip h v =
     (case json_val h [] v of
        Inl e \<Rightarrow> Inl e
      | Inr None \<Rightarrow> Inl SyntaxError
      | Inr (Some j) \<Rightarrow> Inr (json_parse j h))"

subsection \<open>The inverter\<close>

text \<open>
  The state is the store and the counter \<^verbatim>\<open>myId\<close> of the converter; an exception leaves
  the state it was thrown in. The array a call returns is new and referenced by nobody
  else: it is the list of the references it holds.
\<close>

function tree2Array ::
    "nat \<Rightarrow> jsrt \<Rightarrow> jsval \<Rightarrow> string \<Rightarrow> jsval \<Rightarrow> nat \<Rightarrow> heap \<times> nat
      \<Rightarrow> ((error + addr list) \<times> heap \<times> nat) option"
  and tree2Array_each ::
    "nat \<Rightarrow> jsrt \<Rightarrow> string \<Rightarrow> jsval \<Rightarrow> nat \<Rightarrow> jsval list \<Rightarrow> addr list \<Rightarrow> heap \<times> nat
      \<Rightarrow> ((error + addr list) \<times> heap \<times> nat) option"
where
  "tree2Array 0 rt treeIn keyNameOfSubs parentValue level s = None"
| "tree2Array (Suc fuel) rt treeIn keyNameOfSubs parentValue level s =
     (case array_elems (fst s) treeIn of
        Inl e \<Rightarrow> Some (Inl e, s)
      | Inr els \<Rightarrow> tree2Array_each fuel rt keyNameOfSubs parentValue level els [] s)"
| "tree2Array_each fuel rt keyNameOfSubs parentValue level [] roots s = Some (Inr roots, s)"
| "tree2Array_each fuel rt keyNameOfSubs parentValue level (el # els) roots s =
     (let (node, h1) = alloc (fst s) (Obj (own_props rt (fst s) el));
          myId = snd s + 1;
          h2 = set_field h1 node ''$id'' (num_of_nat myId);
          h3 = set_field h2 node ''$parent_id'' parentValue;
          roots1 = roots @ [node]
      in case js_get rt h3 el keyNameOfSubs of
           Inl e \<Rightarrow> Some (Inl e, h3, myId)
         | Inr c \<Rightarrow>
             if truthy c then
               (case json_roundtrip h3 c of
                  Inl e \<Rightarrow> Some (Inl e, h3, myId)
                | Inr (subs, h4) \<Rightarrow>
                    (let h5 = delete_field h4 node keyNameOfSubs in
                     case tree2Array fuel rt subs keyNameOfSubs (num_of_nat myId) (level + 1)
                            (h5, myId) of
                       None \<Rightarrow> None
                     | Some (Inl e, s') \<Rightarrow> Some (Inl e, s')
                     | Some (Inr subTree, s') \<Rightarrow>
                         tree2Array_each fuel rt keyNameOfSubs parentValue level els
                           (roots1 @ subTree) s'))
             else tree2Array_each fuel rt keyNameOfSubs parentValue level els roots1 (h3, myId))"
  by pat_completeness auto
termination
  by (relation "measures
        [(\<lambda>x. case x of Inl (f, _) \<Rightarrow> 2 * f | Inr (f, _) \<Rightarrow> 2 * f + 1),
         (\<lambda>x. case x of Inl _ \<Rightarrow> 0 | Inr (_, _, _, _, _, els, _) \<Rightarrow> length els)]")
     auto

text \<open>\<^verbatim>\<open>resetIdCounter\<close>\<close>

definition resetIdCounter :: "heap \<times> nat \<Rightarrow> heap \<times> nat" where
  "resetIdCounter s = (fst s, 0)"

section \<open>A sample engine\<close>

text \<open>
  To run the model on concrete inputs: exact arithmetic, decimal numerals for the natural
  numbers (the only numbers the runs below convert to strings), plain objects converted to
  \<^verbatim>\<open>[object Object]\<close>.
\<close>

function digits :: "nat \<Rightarrow> string" where
  "digits n =
     (if n < 10 then [''0123456789'' ! n] else digits (n div 10) @ [''0123456789'' ! (n mod 10)])"
  by pat_completeness auto
termination
  by (relation "measure id") auto

definition rt_sample :: jsrt where
  "rt_sample =
     \<lparr> rnd = Fin,
       num_to_str = (\<lambda>n. case n of
                           Fin r \<Rightarrow> (if 0 \<le> r \<and> r = of_int \<lfloor>r\<rfloor> then digits (nat \<lfloor>r\<rfloor>)
                                     else ''?'')
                         | NaN \<Rightarrow> ''NaN'' | PInf \<Rightarrow> ''Infinity'' | NInf \<Rightarrow> ''-Infinity''),
       str_to_num = (\<lambda>s. NaN),
       ref_to_str = (\<lambda>h a. ''[object Object]'') \<rparr>"

section \<open>Well-formed inputs\<close>

text \<open>The fields each operation writes.\<close>

definition tree_meta :: "string list" where
  "tree_meta = [''$level'', ''$index'', ''$tree_index'', ''$is_leaf'']"

definition weight_meta :: "string list" where
  "weight_meta =
     [''$sum_weight'', ''$weight_percent'', ''$parent_weight_percent'', ''$root_weight_percent'',
      ''$level'', ''$index'', ''$tree_index'', ''$is_leaf'']"

definition build_meta :: "string list" where
  "build_meta = [''$level'', ''$children'', ''$is_leaf'']"

definition is_obj :: "heap \<Rightarrow> addr \<Rightarrow> bool" where
  "is_obj h a = (a < length h \<and> (case h ! a of Obj fs \<Rightarrow> True | Arr xs \<Rightarrow> False))"

definition is_arr :: "heap \<Rightarrow> addr \<Rightarrow> bool" where
  "is_arr h a = (a < length h \<and> (case h ! a of Obj fs \<Rightarrow> False | Arr xs \<Rightarrow> True))"

fun is_ref :: "jsval \<Rightarrow> bool" where
  "is_ref (JRef a) = True"
| "is_ref v = False"

text \<open>The input array holds each record once, and every element is an object.\<close>

definition records_ok :: "heap \<Rightarrow> addr list \<Rightarrow> bool" where
  "records_ok h arrIn = (distinct arrIn \<and> (\<forall>a\<in>set arrIn. is_obj h a))"

text \<open>Unique identifiers: every record has one, and it is the only record that has it.\<close>

definition unique_ids :: "heap \<Rightarrow> string \<Rightarrow> addr list \<Rightarrow> bool" where
  "unique_ids h idKey arrIn =
     (\<forall>a\<in>set arrIn. \<not> loose_eq_null (get_field h a idKey) \<and>
        (\<forall>b\<in>set arrIn. strict_eq (get_field h a idKey) (get_field h b idKey) = (a = b)))"

text \<open>Acyclic parent references: a depth that grows from every record to its children.\<close>

definition acyclic_parents :: "heap \<Rightarrow> string \<Rightarrow> string \<Rightarrow> (addr \<Rightarrow> nat) \<Rightarrow> addr list \<Rightarrow> bool" where
  "acyclic_parents h idKey parentKey d arrIn =
     (\<forall>a\<in>set arrIn. \<forall>b\<in>set arrIn.
        strict_eq (get_field h a parentKey) (get_field h b idKey) \<longrightarrow> d b < d a)"

text \<open>The parent values are primitives, and no record that is the child of a record is
  also taken for a top-level record by the rule \<^verbatim>\<open>obj[parentKey] == ''\<close>.\<close>

definition plain_parents :: "jsrt \<Rightarrow> heap \<Rightarrow> string \<Rightarrow> string \<Rightarrow> addr list \<Rightarrow> bool" where
  "plain_parents rt h idKey parentKey arrIn =
     (\<forall>a\<in>set arrIn. \<not> is_ref (get_field h a parentKey) \<and>
        (\<forall>b\<in>set arrIn. strict_eq (get_field h a parentKey) (get_field h b idKey)
           \<longrightarrow> \<not> loose_eq_empty rt h (get_field h a parentKey)))"

text \<open>Every record is a top-level record or the child of a record of the input.\<close>

definition all_attached :: "jsrt \<Rightarrow> heap \<Rightarrow> string \<Rightarrow> string \<Rightarrow> addr list \<Rightarrow> bool" where
  "all_attached rt h idKey parentKey arrIn =
     (\<forall>a\<in>set arrIn. matches4 rt h parentKey JNull a \<or>
        (\<exists>b\<in>set arrIn. strict_eq (get_field h a parentKey) (get_field h b idKey)))"

text \<open>The records below a start value: those it matches, and the records matched by the
  identifier of a record below it.\<close>

inductive desc :: "(jsval \<Rightarrow> addr \<Rightarrow> bool) \<Rightarrow> (addr \<Rightarrow> jsval) \<Rightarrow> addr list \<Rightarrow> jsval \<Rightarrow> addr \<Rightarrow> bool"
  for m :: "jsval \<Rightarrow> addr \<Rightarrow> bool" and idf :: "addr \<Rightarrow> jsval" and arrIn :: "addr list"
where
  desc_child: "a \<in> set arrIn \<Longrightarrow> m sw a \<Longrightarrow> desc m idf arrIn sw a"
| desc_step: "desc m idf arrIn sw b \<Longrightarrow> a \<in> set arrIn \<Longrightarrow> m (idf b) a \<Longrightarrow> desc m idf arrIn sw a"

text \<open>The nodes of a tree that \<^verbatim>\<open>array2Tree\<close> returned: the elements of the array, and
  the elements of the \<^verbatim>\<open>$children\<close> of a node.\<close>

inductive in_tree :: "heap \<Rightarrow> jsval \<Rightarrow> addr \<Rightarrow> bool" for h :: heap and v :: jsval where
  in_tree_top: "v = JRef r \<Longrightarrow> r < length h \<Longrightarrow> h ! r = Arr xs \<Longrightarrow> JRef a \<in> set xs \<Longrightarrow> in_tree h v a"
| in_tree_sub: "in_tree h v b \<Longrightarrow> get_field h b ''$children'' = JRef c \<Longrightarrow> c < length h \<Longrightarrow>
     h ! c = Arr xs \<Longrightarrow> JRef a \<in> set xs \<Longrightarrow> in_tree h v a"

text \<open>The assignments of one step of the two \<^verbatim>\<open>forEach\<close> loops, as one update.\<close>

definition sortByTree_node :: "jsrt \<Rightarrow> nat \<Rightarrow> string option \<Rightarrow> nat \<Rightarrow> addr \<Rightarrow> heap \<Rightarrow> heap" where
  "sortByTree_node rt level parentIndex idx el h =
     set_field (set_field (set_field h el ''$level'' (num_of_nat level))
        el ''$index'' (num_of_nat (idx + 1)))
        el ''$tree_index'' (JStr (tree_index rt parentIndex (idx + 1)))"

definition sortAndWeight_node ::
    "jsrt \<Rightarrow> string \<Rightarrow> nat \<Rightarrow> jsnum \<Rightarrow> string option \<Rightarrow> jsval \<Rightarrow> nat \<Rightarrow> addr \<Rightarrow> heap \<Rightarrow> heap" where
  "sortAndWeight_node rt weightKey level rootWeight parentIndex sumWeight idx el h =
     (let h1 = set_field h el ''$sum_weight'' sumWeight;
          h2 = set_field h1 el ''$weight_percent''
                 (js_div rt h1 (js_or (get_field h1 el weightKey) (num_of_nat 0)) sumWeight);
          h3 = set_field h2 el ''$parent_weight_percent'' (JNum rootWeight);
          h4 = set_field h3 el ''$root_weight_percent''
                 (js_mul rt h3 (get_field h3 el ''$parent_weight_percent'')
                    (get_field h3 el ''$weight_percent''));
          h5 = set_field h4 el ''$level'' (num_of_nat level);
          h6 = set_field h5 el ''$index'' (num_of_nat (idx + 1))
      in set_field h6 el ''$tree_index'' (JStr (tree_index rt parentIndex (idx + 1))))"

section \<open>Sample inputs\<close>

text \<open>\<^verbatim>\<open>[{id: 1, parent_id: 7}]\<close>: a record whose parent is not in the input.\<close>

definition h_orphan :: heap where
  "h_orphan = [Obj [(''id'', JNum (Fin 1)), (''parent_id'', JNum (Fin 7))]]"

text \<open>\<^verbatim>\<open>[{id: 1, parent_id: null, weight: 0}]\<close>\<close>

definition h_zero :: heap where
  "h_zero = [Obj [(''id'', JNum (Fin 1)), (''parent_id'', JNull), (''weight'', JNum (Fin 0))]]"


text \<open>\<^verbatim>\<open>[{id: 1, parent_id: null}, {id: 1, parent_id: null}]\<close>: two records, one identifier.\<close>

definition h_same_id :: heap where
  "h_same_id =
     [Obj [(''id'', JNum (Fin 1)), (''parent_id'', JNull)],
      Obj [(''id'', JNum (Fin 1)), (''parent_id'', JNull)]]"

text \<open>\<^verbatim>\<open>[{id: 1, parent_id: null}, {id: 2, parent_id: 7}]\<close>\<close>

definition h_one_orphan :: heap where
  "h_one_orphan =
     [Obj [(''id'', JNum (Fin 1)), (''parent_id'', JNull)],
      Obj [(''id'', JNum (Fin 2)), (''parent_id'', JNum (Fin 7))]]"

text \<open>The scenario of the specification:
  \<^verbatim>\<open>[{id: 1, parent_id: null, weight: 100}, {id: 2, parent_id: 1, weight: 60},
  {id: 3, parent_id: 1, weight: 40}]\<close>, with the depth of each record.\<close>

definition h_forest :: heap where
  "h_forest =
     [Obj [(''id'', JNum (Fin 1)), (''parent_id'', JNull), (''weight'', JNum (Fin 100))],
      Obj [(''id'', JNum (Fin 2)), (''parent_id'', JNum (Fin 1)), (''weight'', JNum (Fin 60))],
      Obj [(''id'', JNum (Fin 3)), (''parent_id'', JNum (Fin 1)), (''weight'', JNum (Fin 40))]]"

definition d_forest :: "addr \<Rightarrow> nat" where
  "d_forest a = (if a = 0 then 0 else 1)"

text \<open>The tree \<^verbatim>\<open>[{name: 'Root', children: [{name: 'Child'}]}]\<close>: the array of the roots
  is cell 3.\<close>

definition h_tree :: heap where
  "h_tree =
     [Obj [(''name'', JStr ''Root''), (''children'', JRef 1)],
      Arr [JRef 2],
      Obj [(''name'', JStr ''Child'')],
      Arr [JRef 0]]"

section \<open>Auxiliary notions of the proofs\<close>

text \<open>\<^verbatim>\<open>[{id: 1, parent_id: ''}]\<close>: a record whose parent value is the empty string.\<close>

definition h_empty_parent :: heap where
  "h_empty_parent = [Obj [(''id'', JNum (Fin 1)), (''parent_id'', JStr [])]]"

text \<open>What the traversal needs of the matching rule \<open>m\<close>, the identifiers \<open>idf\<close> and the
  start value \<open>sw0\<close>: a child is deeper than its parent, is matched by one identifier only
  and is not matched by the start value.\<close>

definition gforest ::
    "(jsval \<Rightarrow> addr \<Rightarrow> bool) \<Rightarrow> (addr \<Rightarrow> jsval) \<Rightarrow> (addr \<Rightarrow> nat) \<Rightarrow> jsval \<Rightarrow> addr list \<Rightarrow> bool" where
  "gforest m idf d sw0 arrIn =
     (\<forall>a\<in>set arrIn. \<forall>b\<in>set arrIn. m (idf b) a \<longrightarrow>
        d b < d a \<and> \<not> m sw0 a \<and> (\<forall>c\<in>set arrIn. m (idf c) a \<longrightarrow> c = b))"

text \<open>Two stores with the same cells kinds and the same values in all fields but the ones
  listed.\<close>

definition same_data :: "string list \<Rightarrow> heap \<Rightarrow> heap \<Rightarrow> bool" where
  "same_data meta h0 h =
     (length h = length h0 \<and> (\<forall>a. is_obj h a = is_obj h0 a) \<and>
      (\<forall>a k. k \<notin> set meta \<longrightarrow> get_field h a k = get_field h0 a k))"

text \<open>The share of a record in its sibling group, as \<^verbatim>\<open>array2SortAndWeight\<close> computes it:
  \<^verbatim>\<open>(el[weightKey] || 0) / sumWeight\<close>, the sum taken over the records matched by the
  parent value of the record.\<close>

definition weight_share :: "jsrt \<Rightarrow> heap \<Rightarrow> string \<Rightarrow> string \<Rightarrow> addr list \<Rightarrow> addr \<Rightarrow> jsval" where
  "weight_share rt h weightKey parentKey arrIn a =
     js_div rt h (js_or (get_field h a weightKey) (num_of_nat 0))
       (sum_weight rt h weightKey
          (filter (matches3 h parentKey (get_field h a parentKey)) arrIn))"

text \<open>The fields the claims are about.\<close>

definition leaf :: "heap \<Rightarrow> addr \<Rightarrow> bool" where
  "leaf h a = (get_field h a ''$is_leaf'' = num_of_nat 1)"

definition pw :: "heap \<Rightarrow> addr \<Rightarrow> jsval" where
  "pw h a = get_field h a ''$parent_weight_percent''"

definition rw :: "heap \<Rightarrow> addr \<Rightarrow> jsval" where
  "rw h a = get_field h a ''$root_weight_percent''"


text \<open>What the claims say of the records \<open>T\<close> a call has appended, in the store \<open>h\<close> it
  returns: the records without children are marked, the inherited share of a record is the
  cumulative share of its parent, and the cumulative share is the product of the two.\<close>

definition leaves_ok :: "(jsval \<Rightarrow> addr \<Rightarrow> bool) \<Rightarrow> (addr \<Rightarrow> jsval) \<Rightarrow> addr list \<Rightarrow> heap \<Rightarrow> addr list \<Rightarrow> bool" where
  "leaves_ok m idf arrIn h T = (\<forall>a\<in>set T. filter (m (idf a)) arrIn = [] \<longrightarrow> leaf h a)"


definition unmarked :: "(jsval \<Rightarrow> addr \<Rightarrow> bool) \<Rightarrow> (addr \<Rightarrow> jsval) \<Rightarrow> addr list \<Rightarrow> heap \<Rightarrow> heap \<Rightarrow> bool" where
  "unmarked m idf arrIn h h' =
     (\<forall>a. filter (m (idf a)) arrIn \<noteq> [] \<longrightarrow> get_field h' a ''$is_leaf'' = get_field h a ''$is_leaf'')"

text \<open>What a call of \<^verbatim>\<open>array2Tree\<close> leaves as it is: the cells that exist (the store only
  grows), the arrays, the kind of every cell, the fields other than the ones it writes,
  and a leaf mark once it is set.\<close>

definition keeps :: "heap \<Rightarrow> heap \<Rightarrow> bool" where
  "keeps h h' =
     (length h \<le> length h' \<and> (\<forall>c xs. c < length h \<and> h ! c = Arr xs \<longrightarrow> h' ! c = Arr xs) \<and>
      (\<forall>a. is_obj h' a = is_obj h a) \<and>
      (\<forall>a k. k \<notin> set build_meta \<longrightarrow> get_field h' a k = get_field h a k) \<and>
      (\<forall>a. leaf h a \<longrightarrow> leaf h' a))"

text \<open>A finished node of the tree: its \<^verbatim>\<open>$children\<close> is an array of the store that holds
  its children in input order and, where the leaf marks are looked at (\<open>marks\<close>: they
  need unique identifiers), it is marked as a leaf if there are none.\<close>

definition node_ok ::
    "bool \<Rightarrow> (jsval \<Rightarrow> addr \<Rightarrow> bool) \<Rightarrow> (addr \<Rightarrow> jsval) \<Rightarrow> addr list \<Rightarrow> heap \<Rightarrow> addr \<Rightarrow> bool" where
  "node_ok marks m idf arrIn h a =
     ((case get_field h a ''$children'' of
         JRef c \<Rightarrow> c < length h \<and> h ! c = Arr (map JRef (filter (m (idf a)) arrIn))
       | _ \<Rightarrow> False) \<and>
      (marks \<longrightarrow> filter (m (idf a)) arrIn = [] \<longrightarrow> leaf h a))"

text \<open>The number of records that are at least as deep as a record matched by a start
  value: a bound of the depth of the recursion from there.\<close>

definition span :: "(jsval \<Rightarrow> addr \<Rightarrow> bool) \<Rightarrow> (addr \<Rightarrow> nat) \<Rightarrow> addr list \<Rightarrow> jsval \<Rightarrow> nat" where
  "span m d arrIn sw = card {a \<in> set arrIn. \<exists>k\<in>set arrIn. m sw k \<and> d k \<le> d a}"

text \<open>The abstract shape of a tree of records: a record of the input and the trees of its
  children; the records of a tree, parents before children.\<close>

datatype rtree = RNode addr "rtree list"

fun preorder :: "rtree \<Rightarrow> addr list" where
  "preorder (RNode a ts) = a # concat (map preorder ts)"

fun root :: "rtree \<Rightarrow> addr" where
  "root (RNode a ts) = a"

text \<open>The values that \<^verbatim>\<open>JSON.parse(JSON.stringify(v))\<close> gives back as they are, and what
  \<^verbatim>\<open>JSON.stringify\<close> makes of them.\<close>

fun plain :: "jsval \<Rightarrow> bool" where
  "plain JNull = True"
| "plain (JBool b) = True"
| "plain (JNum n) = (case n of Fin r \<Rightarrow> True | _ \<Rightarrow> False)"
| "plain (JStr s) = True"
| "plain v = False"

fun jprim :: "jsval \<Rightarrow> json" where
  "jprim (JBool b) = JsBool b"
| "jprim (JNum n) = (case n of Fin r \<Rightarrow> JsNum r | _ \<Rightarrow> JsNull)"
| "jprim (JStr s) = JsStr s"
| "jprim v = JsNull"

text \<open>A flat record: an object with one entry for each of its keys and plain values.\<close>

definition flat_records :: "heap \<Rightarrow> addr list \<Rightarrow> bool" where
  "flat_records h arrIn =
     (\<forall>a\<in>set arrIn. a < length h \<and>
        (case h ! a of
           Obj fs \<Rightarrow> distinct (map fst fs) \<and> list_all (\<lambda>p. plain (snd p)) fs
         | Arr xs \<Rightarrow> False))"

text \<open>The fields of a node of a tree: plain values, but for the children.\<close>

definition node_fields :: "(string \<times> jsval) list \<Rightarrow> bool" where
  "node_fields fs =
     (distinct (map fst fs) \<and> list_all (\<lambda>p. fst p = ''$children'' \<or> plain (snd p)) fs)"

fun node_cell :: "cell \<Rightarrow> bool" where
  "node_cell (Obj fs) = node_fields fs"
| "node_cell (Arr xs) = True"

text \<open>The object \<open>x\<close> of the store \<open>H\<close> holds the tree \<open>t\<close>: its fields other than
  \<^verbatim>\<open>$children\<close> are the ones \<open>fld\<close> gives for the record, and \<^verbatim>\<open>$children\<close> is an array
  of objects that hold the trees of the children. No cell of \<open>S\<close> is part of it, and no
  cell is met twice on the way down.\<close>

fun repr_node :: "(addr \<Rightarrow> string \<Rightarrow> jsval) \<Rightarrow> heap \<Rightarrow> addr set \<Rightarrow> addr \<Rightarrow> rtree \<Rightarrow> bool" where
  "repr_node fld H S x (RNode a ts) =
     (\<exists>fs c ys. x \<notin> S \<and> x < length H \<and> H ! x = Obj fs \<and> node_fields fs \<and>
        (\<forall>k. k \<noteq> ''$children'' \<longrightarrow> lookup_prop fs k = fld a k) \<and>
        map_of fs ''$children'' = Some (JRef c) \<and>
        c \<notin> insert x S \<and> c < length H \<and> H ! c = Arr (map JRef ys) \<and>
        list_all2 (\<lambda>y t. repr_node fld H (insert c (insert x S)) y t) ys ts)"

text \<open>What \<^verbatim>\<open>JSON.parse\<close> makes of the text of a tree, in any store: new cells that hold
  the tree.\<close>

definition copies :: "(addr \<Rightarrow> string \<Rightarrow> jsval) \<Rightarrow> json \<Rightarrow> rtree \<Rightarrow> bool" where
  "copies fld j t =
     (\<forall>H'. \<exists>x' H''. json_parse j H' = (JRef x', H'') \<and> length H' \<le> length H'' \<and>
        take (length H') H'' = H' \<and>
        (\<forall>S'. (\<forall>s\<in>S'. s < length H' \<or> length H'' \<le> s) \<longrightarrow> repr_node fld H'' S' x' t))"

text \<open>The records of a list of trees, and what \<^verbatim>\<open>tree2Array\<close> returns for a record: a
  new object with the fields of the record, but for \<^verbatim>\<open>$children\<close>, \<^verbatim>\<open>$id\<close> and
  \<^verbatim>\<open>$parent_id\<close>.\<close>

definition nodes_of :: "rtree list \<Rightarrow> addr list" where
  "nodes_of ts = concat (map preorder ts)"

definition copy_of :: "(addr \<Rightarrow> string \<Rightarrow> jsval) \<Rightarrow> heap \<Rightarrow> addr \<Rightarrow> addr \<Rightarrow> bool" where
  "copy_of fld H node a =
     (node < length H \<and>
      (\<forall>k. k \<notin> {''$children'', ''$id'', ''$parent_id''} \<longrightarrow> get_field H node k = fld a k))"

text \<open>One step of the loop of \<^verbatim>\<open>tree2Array\<close>, on an element that holds the tree \<open>t\<close>: it
  adds the copies of the records of \<open>t\<close> to the result, and numbers them.\<close>

definition node_step :: "(addr \<Rightarrow> string \<Rightarrow> jsval) \<Rightarrow> jsrt \<Rightarrow> rtree \<Rightarrow> bool" where
  "node_step fld rt t =
     (\<forall>x H n pv lvl roots F. repr_node fld H {} x t \<and> length (preorder t) \<le> F \<longrightarrow>
        (\<exists>out H'.
           (\<forall>els. tree2Array_each F rt ''$children'' pv lvl (JRef x # els) roots (H, n)
                  = tree2Array_each F rt ''$children'' pv lvl els (roots @ out)
                      (H', n + length (preorder t))) \<and>
           length H \<le> length H' \<and> take (length H) H' = H \<and>
           list_all2 (copy_of fld H') out (preorder t)))"

text \<open>The fields that the round trip through \<^verbatim>\<open>array2Tree\<close> and \<^verbatim>\<open>tree2Array\<close> writes or
  removes.\<close>

definition flat_meta :: "string list" where
  "flat_meta = build_meta @ [''$id'', ''$parent_id'']"

text \<open>An object of the store with the fields of a node.\<close>

definition node_at :: "heap \<Rightarrow> addr \<Rightarrow> bool" where
  "node_at h a = (is_obj h a \<and> node_cell (h ! a))"

text \<open>The cells of \<open>S\<close> are not met below a record of the depth \<open>n\<close>: they are records
  of a smaller depth, or arrays that hold a record of a depth up to \<open>n\<close>.\<close>

definition off_path :: "heap \<Rightarrow> addr list \<Rightarrow> (addr \<Rightarrow> nat) \<Rightarrow> addr set \<Rightarrow> nat \<Rightarrow> bool" where
  "off_path h arrIn d S n =
     (\<forall>s\<in>S. (s \<in> set arrIn \<and> d s < n) \<or>
        (\<exists>xs k. s < length h \<and> h ! s = Arr xs \<and> JRef k \<in> set xs \<and> k \<in> set arrIn \<and> d k \<le> n))"

section \<open>Termination of the two flatteners\<close>

lemma sortByTree_each_total:
  assumes call: "\<And>startWith level s parentIndex.
      length arrIn + 1 \<le> f + length (snd s) \<Longrightarrow>
      \<exists>s'. array2SortByTree (Suc f) rt arrIn idKey parentKey startWith level s parentIndex = Some s'
           \<and> length (snd s) \<le> length (snd s')"
  shows "length arrIn \<le> f + length (snd s) \<Longrightarrow>
      \<exists>s'. sortByTree_each (Suc f) rt arrIn idKey parentKey level parentIndex els idx s = Some s'
           \<and> length (snd s) \<le> length (snd s')"
proof (induction els arbitrary: idx s)
  case Nil
  then show ?case by simp
next
  case (Cons el els)
  define h3 where "h3 = set_field (set_field (set_field (fst s) el ''$level'' (num_of_nat level))
      el ''$index'' (num_of_nat (idx + 1))) el ''$tree_index''
        (JStr (tree_index rt parentIndex (idx + 1)))"
  define s1 where "s1 = (h3, snd s @ [el])"
  have "length arrIn + 1 \<le> f + length (snd s1)"
    using Cons.prems by (simp add: s1_def)
  from call[OF this] obtain s2 where
    s2: "array2SortByTree (Suc f) rt arrIn idKey parentKey (get_field h3 el idKey) (level + 1) s1
           (Some (tree_index rt parentIndex (idx + 1))) = Some s2"
    and len2: "length (snd s1) \<le> length (snd s2)"
    by blast
  have "length arrIn \<le> f + length (snd s2)"
    using Cons.prems len2 by (simp add: s1_def)
  from Cons.IH[OF this] obtain s3 where
    s3: "sortByTree_each (Suc f) rt arrIn idKey parentKey level parentIndex els (idx + 1) s2 = Some s3"
    and len3: "length (snd s2) \<le> length (snd s3)"
    by blast
  have "sortByTree_each (Suc f) rt arrIn idKey parentKey level parentIndex (el # els) idx s = Some s3"
    using s2 s3 unfolding sortByTree_each.simps Let_def h3_def[symmetric] s1_def[symmetric]
    by simp
  moreover have "length (snd s) \<le> length (snd s3)"
    using len2 len3 by (simp add: s1_def)
  ultimately show ?case by blast
qed

lemma array2SortByTree_total:
  "length arrIn + 1 \<le> f + length (snd s) \<Longrightarrow>
     \<exists>s'. array2SortByTree (Suc f) rt arrIn idKey parentKey startWith level s parentIndex = Some s'
          \<and> length (snd s) \<le> length (snd s')"
proof (induction f arbitrary: startWith level s parentIndex)
  case 0
  then show ?case by simp
next
  case (Suc f)
  show ?case
  proof (cases "length (snd s) \<le> length arrIn \<and> idKey \<noteq> [] \<and> parentKey \<noteq> []
               \<and> filter (matches4 rt (fst s) parentKey startWith) arrIn \<noteq> []")
    case True
    have "length arrIn \<le> f + length (snd s)"
      using Suc.prems by simp
    from sortByTree_each_total[where f = f, OF Suc.IH this]
    obtain s' where
      "sortByTree_each (Suc f) rt arrIn idKey parentKey level parentIndex
         (filter (matches4 rt (fst s) parentKey startWith) arrIn) 0 s = Some s'"
      "length (snd s) \<le> length (snd s')"
      by blast
    then show ?thesis using True by (simp add: Let_def)
  next
    case False
    then show ?thesis by (cases s) (auto simp: Let_def)
  qed
qed

lemma sortAndWeight_each_total:
  assumes call: "\<And>startWith level rootWeight s parentIndex.
      length arrIn + 1 \<le> f + length (snd s) \<Longrightarrow>
      \<exists>s'. array2SortAndWeight (Suc f) rt arrIn idKey parentKey weightKey startWith level rootWeight
             s parentIndex = Some s'
           \<and> length (snd s) \<le> length (snd s')"
  shows "length arrIn \<le> f + length (snd s) \<Longrightarrow>
      \<exists>s'. sortAndWeight_each (Suc f) rt arrIn idKey parentKey weightKey level rootWeight
             parentIndex sumWeight els idx s = Some s'
           \<and> length (snd s) \<le> length (snd s')"
proof (induction els arbitrary: idx s)
  case Nil
  then show ?case by simp
next
  case (Cons el els)
  obtain h7 sw rw ti where step:
    "\<And>r. sortAndWeight_each (Suc f) rt arrIn idKey parentKey weightKey level rootWeight
         parentIndex sumWeight (el # els) idx s =
       (case array2SortAndWeight (Suc f) rt arrIn idKey parentKey weightKey sw (level + 1) rw
               (h7, snd s @ [el]) (Some ti) of
          None \<Rightarrow> None
        | Some s' \<Rightarrow> sortAndWeight_each (Suc f) rt arrIn idKey parentKey weightKey level rootWeight
                       parentIndex sumWeight els (idx + 1) s')"
    unfolding sortAndWeight_each.simps Let_def by blast
  have "length arrIn + 1 \<le> f + length (snd (h7, snd s @ [el]))"
    using Cons.prems by simp
  from call[OF this] obtain s2 where
    s2: "array2SortAndWeight (Suc f) rt arrIn idKey parentKey weightKey sw (level + 1) rw
           (h7, snd s @ [el]) (Some ti) = Some s2"
    and len2: "length (snd (h7, snd s @ [el])) \<le> length (snd s2)"
    by blast
  have "length arrIn \<le> f + length (snd s2)"
    using Cons.prems len2 by simp
  from Cons.IH[OF this] obtain s3 where
    s3: "sortAndWeight_each (Suc f) rt arrIn idKey parentKey weightKey level rootWeight
           parentIndex sumWeight els (idx + 1) s2 = Some s3"
    and len3: "length (snd s2) \<le> length (snd s3)"
    by blast
  have "sortAndWeight_each (Suc f) rt arrIn idKey parentKey weightKey level rootWeight
           parentIndex sumWeight (el # els) idx s = Some s3"
    unfolding step s2 option.case by (rule s3)
  moreover have "length (snd s) \<le> length (snd s3)"
    using len2 len3 by simp
  ultimately show ?case by blast
qed

lemma array2SortAndWeight_total:
  "length arrIn + 1 \<le> f + length (snd s) \<Longrightarrow>
     \<exists>s'. array2SortAndWeight (Suc f) rt arrIn idKey parentKey weightKey startWith level rootWeight
            s parentIndex = Some s'
          \<and> length (snd s) \<le> length (snd s')"
proof (induction f arbitrary: startWith level rootWeight s parentIndex)
  case 0
  then show ?case by simp
next
  case (Suc f)
  show ?case
  proof (cases "length (snd s) \<le> length arrIn
               \<and> filter (matches3 (fst s) parentKey startWith) arrIn \<noteq> []")
    case True
    have "length arrIn \<le> f + length (snd s)"
      using Suc.prems by simp
    from sortAndWeight_each_total[where f = f, OF Suc.IH this]
    obtain s' where
      "sortAndWeight_each (Suc f) rt arrIn idKey parentKey weightKey level rootWeight parentIndex
         (sum_weight rt (fst s) weightKey (filter (matches3 (fst s) parentKey startWith) arrIn))
         (filter (matches3 (fst s) parentKey startWith) arrIn) 0 s = Some s'"
      "length (snd s) \<le> length (snd s')"
      by blast
    then show ?thesis using True by (simp add: Let_def)
  next
    case False
    then show ?thesis by (cases s) (auto simp: Let_def)
  qed
qed

text \<open>
  C9. For every input list, whatever the records, the start value and the accumulator
  are, \<^verbatim>\<open>array2SortByTree\<close> and \<^verbatim>\<open>array2SortAndWeight\<close> return: a call stack of
  depth \<open>length arrIn + 2\<close> is enough, because a call whose accumulator is longer than
  the input returns at once and every nested call is made with a longer accumulator.
\<close>

theorem C9_flatteners_terminate:
  "(\<exists>s'. array2SortByTree (length arrIn + 2) rt arrIn idKey parentKey startWith level
           (h, arrOut) parentIndex = Some s') \<and>
   (\<exists>s'. array2SortAndWeight (length arrIn + 2) rt arrIn idKey parentKey weightKey startWith level
           rootWeight (h, arrOut) parentIndex = Some s')"
proof
  have "length arrIn + 1 \<le> (length arrIn + 1) + length (snd (h, arrOut))"
    by simp
  from array2SortByTree_total[OF this]
  show "\<exists>s'. array2SortByTree (length arrIn + 2) rt arrIn idKey parentKey startWith level
           (h, arrOut) parentIndex = Some s'"
    by (metis One_nat_def Suc_eq_plus1 add_Suc_right numeral_2_eq_2)
next
  have "length arrIn + 1 \<le> (length arrIn + 1) + length (snd (h, arrOut))"
    by simp
  from array2SortAndWeight_total[OF this]
  show "\<exists>s'. array2SortAndWeight (length arrIn + 2) rt arrIn idKey parentKey weightKey startWith
           level rootWeight (h, arrOut) parentIndex = Some s'"
    by (metis One_nat_def Suc_eq_plus1 add_Suc_right numeral_2_eq_2)
qed

section \<open>The matching rule of the weighted flattener\<close>


text \<open>
  C3. The record \<^verbatim>\<open>{id: 1, parent_id: ''}\<close> is a top-level record for
  \<^verbatim>\<open>array2SortByTree\<close> called with \<^verbatim>\<open>startWith = null\<close>, which has the disjunct
  \<^verbatim>\<open>startWith == undefined && obj[parentKey] == ''\<close>; \<^verbatim>\<open>array2SortAndWeight\<close> lacks
  that disjunct, matches nothing and returns the empty list.
\<close>

theorem C3_empty_string_parent:
  "snd (the (array2SortByTree 3 rt_sample [0] ''id'' ''parent_id'' JNull 1
               (h_empty_parent, []) None)) = [0] \<and>
   snd (the (array2SortAndWeight 3 rt_sample [0] ''id'' ''parent_id'' ''weight'' JNull 1 (Fin 1)
               (h_empty_parent, []) None)) = []"
  by code_simp

section \<open>The store operations\<close>

lemma length_set_field [simp]: "length (set_field h a k v) = length h"
  by (simp add: set_field_def split: cell.splits)

lemma length_delete_field [simp]: "length (delete_field h a k) = length h"
  by (simp add: delete_field_def split: cell.splits)

lemma take_set_field: "n \<le> a \<Longrightarrow> take n (set_field h a k v) = take n h"
  by (simp add: set_field_def split: cell.splits)

lemma take_delete_field: "n \<le> a \<Longrightarrow> take n (delete_field h a k) = take n h"
  by (simp add: delete_field_def split: cell.splits)

section \<open>tree2Array leaves the caller's store alone\<close>

lemma json_parse_extends:
  "\<exists>ys. snd (json_parse j h) = h @ ys"
  "\<exists>ys. snd (json_parse_elems js h) = h @ ys"
  "\<exists>ys. snd (json_parse_props ps h) = h @ ys"
proof (induction j h and js h and ps h
       rule: json_parse_json_parse_elems_json_parse_props.induct)
  case (5 js h)
  then show ?case by (auto simp: alloc_def split: prod.splits)
next
  case (6 ps h)
  then show ?case by (auto simp: alloc_def split: prod.splits)
next
  case (8 j js h)
  obtain v h1 where 1: "json_parse j h = (v, h1)" by (cases "json_parse j h")
  obtain vs h2 where 2: "json_parse_elems js h1 = (vs, h2)" by (cases "json_parse_elems js h1")
  from 8(1) 1 obtain ys where "h1 = h @ ys" by auto
  moreover from 8(2)[OF 1[symmetric] refl] 2 obtain zs where "h2 = h1 @ zs" by auto
  ultimately show ?case using 1 2 by simp
next
  case (10 p ps h)
  obtain v h1 where 1: "json_parse (snd p) h = (v, h1)" by (cases "json_parse (snd p) h")
  obtain fs h2 where 2: "json_parse_props ps h1 = (fs, h2)" by (cases "json_parse_props ps h1")
  from 10(1) 1 obtain ys where "h1 = h @ ys" by auto
  moreover from 10(2)[OF 1[symmetric] refl] 2 obtain zs where "h2 = h1 @ zs" by auto
  ultimately show ?case using 1 2 by simp
qed simp_all

lemma json_roundtrip_extends:
  assumes "json_roundtrip h v = Inr (r, h')"
  shows "\<exists>ys. h' = h @ ys"
proof -
  from assms obtain j where "json_parse j h = (r, h')"
    by (auto simp: json_roundtrip_def split: sum.splits option.splits)
  with json_parse_extends(1)[of j h] show ?thesis by simp
qed

lemma tree2Array_each_frame:
  assumes call: "\<And>treeIn parentValue level h myId res h' myId'.
      n \<le> length h \<Longrightarrow>
      tree2Array f rt treeIn key parentValue level (h, myId) = Some (res, h', myId') \<Longrightarrow>
      n \<le> length h' \<and> take n h' = take n h"
  shows "n \<le> length h \<Longrightarrow>
      tree2Array_each f rt key parentValue level els roots (h, myId) = Some (res, h', myId') \<Longrightarrow>
      n \<le> length h' \<and> take n h' = take n h"
proof (induction els arbitrary: roots h myId)
  case Nil
  then show ?case by simp
next
  case (Cons el els)
  define node where "node = length h"
  define h1 where "h1 = h @ [Obj (own_props rt h el)]"
  define h3 where "h3 = set_field (set_field h1 node ''$id'' (num_of_nat (myId + 1)))
                          node ''$parent_id'' parentValue"
  have len3: "n \<le> length h3"
    using Cons.prems(1) by (simp add: h3_def h1_def)
  have take3: "take n h3 = take n h"
    using Cons.prems(1) by (simp add: h3_def h1_def node_def take_set_field)
  have run: "(case js_get rt h3 el key of
           Inl e \<Rightarrow> Some (Inl e, h3, myId + 1)
         | Inr c \<Rightarrow>
             if truthy c then
               (case json_roundtrip h3 c of
                  Inl e \<Rightarrow> Some (Inl e, h3, myId + 1)
                | Inr (subs, h4) \<Rightarrow>
                     (case tree2Array f rt subs key (num_of_nat (myId + 1)) (level + 1)
                            (delete_field h4 node key, myId + 1) of
                       None \<Rightarrow> None
                     | Some (Inl e, s') \<Rightarrow> Some (Inl e, s')
                     | Some (Inr subTree, s') \<Rightarrow>
                         tree2Array_each f rt key parentValue level els
                           ((roots @ [node]) @ subTree) s'))
             else tree2Array_each f rt key parentValue level els (roots @ [node]) (h3, myId + 1))
         = Some (res, h', myId')"
    using Cons.prems(2)
    by (simp add: Let_def alloc_def h3_def h1_def node_def
          cong: sum.case_cong if_cong option.case_cong prod.case_cong)
  show ?case
  proof (cases "js_get rt h3 el key")
    case (Inl e)
    with run have "h' = h3" by simp
    with len3 take3 show ?thesis by simp
  next
    case (Inr c)
    show ?thesis
    proof (cases "truthy c")
      case False
      with run Inr have
        "tree2Array_each f rt key parentValue level els (roots @ [node]) (h3, myId + 1)
           = Some (res, h', myId')"
        by simp
      from Cons.IH[OF len3 this] take3 show ?thesis by simp
    next
      case True
      show ?thesis
      proof (cases "json_roundtrip h3 c")
        case (Inl e)
        with run Inr True have "h' = h3" by simp
        with len3 take3 show ?thesis by simp
      next
        case rt: (Inr p)
        obtain subs h4 where p: "p = (subs, h4)" by (cases p)
        from json_roundtrip_extends[OF rt[unfolded p]] obtain ys where h4: "h4 = h3 @ ys" ..
        define h5 where "h5 = delete_field h4 node key"
        have len5: "n \<le> length h5"
          using len3 by (simp add: h5_def h4)
        have take5: "take n h5 = take n h"
          using take3 len3 Cons.prems(1) by (simp add: h5_def h4 node_def take_delete_field)
        from run Inr True rt p have run2:
          "(case tree2Array f rt subs key (num_of_nat (myId + 1)) (level + 1) (h5, myId + 1) of
              None \<Rightarrow> None
            | Some (Inl e, s') \<Rightarrow> Some (Inl e, s')
            | Some (Inr subTree, s') \<Rightarrow>
                tree2Array_each f rt key parentValue level els ((roots @ [node]) @ subTree) s')
           = Some (res, h', myId')"
          by (simp add: h5_def)
        then obtain r6 h6 id6 where sub:
          "tree2Array f rt subs key (num_of_nat (myId + 1)) (level + 1) (h5, myId + 1)
             = Some (r6, h6, id6)"
          by (cases "tree2Array f rt subs key (num_of_nat (myId + 1)) (level + 1) (h5, myId + 1)")
             auto
        from call[OF len5 sub] have len6: "n \<le> length h6" and take6: "take n h6 = take n h5"
          by simp_all
        show ?thesis
        proof (cases r6)
          case (Inl e)
          with run2 sub have "h' = h6" by simp
          with len6 take6 take5 show ?thesis by simp
        next
          case (Inr subTree)
          with run2 sub have
            "tree2Array_each f rt key parentValue level els ((roots @ [node]) @ subTree) (h6, id6)
               = Some (res, h', myId')"
            by simp
          from Cons.IH[OF len6 this] take6 take5 show ?thesis by simp
        qed
      qed
    qed
  qed
qed

lemma tree2Array_frame:
  "n \<le> length h \<Longrightarrow>
   tree2Array f rt treeIn key parentValue level (h, myId) = Some (res, h', myId') \<Longrightarrow>
   n \<le> length h' \<and> take n h' = take n h"
proof (induction f arbitrary: treeIn parentValue level h myId res h' myId')
  case 0
  then show ?case by simp
next
  case (Suc f)
  show ?case
  proof (cases "array_elems h treeIn")
    case (Inl e)
    with Suc.prems show ?thesis by simp
  next
    case (Inr els)
    with Suc.prems(2) have
      "tree2Array_each f rt key parentValue level els [] (h, myId) = Some (res, h', myId')"
      by simp
    from tree2Array_each_frame[where f = f, OF Suc.IH Suc.prems(1) this]
    show ?thesis .
  qed
qed

text \<open>
  C8. Whatever the tree is, and whether the call returns a list or throws, every object
  and every array that was in the store before the call of \<^verbatim>\<open>tree2Array\<close> is in it
  afterwards with the same content: the call only adds cells (the copies it makes) and
  writes \<^verbatim>\<open>$id\<close>, \<^verbatim>\<open>$parent_id\<close> and the deletion of the children field on the copies.
\<close>

theorem C8_tree2Array_keeps_input:
  "tree2Array fuel rt treeIn keyNameOfSubs parentValue level (h, myId) = Some (res, h', myId')
     \<Longrightarrow> length h \<le> length h' \<and> take (length h) h' = h"
  using tree2Array_frame[of "length h" h fuel rt treeIn keyNameOfSubs parentValue level myId
      res h' myId']
  by simp

theorem C8_tree2Array_keeps_input_witness:
  "tree2Array 3 rt_sample (JRef 3) ''children'' JNull 1 (h_tree, 0) \<noteq> None \<and>
   take (length h_tree)
     (fst (snd (the (tree2Array 3 rt_sample (JRef 3) ''children'' JNull 1 (h_tree, 0))))) = h_tree"
proof -
  have ne: "tree2Array 3 rt_sample (JRef 3) ''children'' JNull 1 (h_tree, 0) \<noteq> None"
    by code_simp
  then obtain res h' myId' where
    run: "tree2Array 3 rt_sample (JRef 3) ''children'' JNull 1 (h_tree, 0) = Some (res, h', myId')"
    by (metis not_None_eq surj_pair)
  from C8_tree2Array_keeps_input[OF run] have "take (length h_tree) h' = h_tree" by simp
  then have "take (length h_tree)
     (fst (snd (the (tree2Array 3 rt_sample (JRef 3) ''children'' JNull 1 (h_tree, 0))))) = h_tree"
    unfolding run by (simp only: option.sel snd_conv fst_conv)
  with ne show ?thesis by (simp only: simp_thms)
qed

section \<open>Records below a start value\<close>

lemma desc_in: "desc m idf arrIn sw a \<Longrightarrow> a \<in> set arrIn"
  by (induction rule: desc.induct) auto

lemma desc_first_aux:
  "desc m idf arrIn sw' a \<Longrightarrow> sw' = idf k \<Longrightarrow> k \<in> set arrIn \<Longrightarrow> m sw k
     \<Longrightarrow> desc m idf arrIn sw a"
proof (induction rule: desc.induct)
  case (desc_child a sw)
  then show ?case by (meson desc.desc_child desc.desc_step)
next
  case (desc_step sw b a)
  then show ?case by (meson desc.desc_step)
qed

lemma desc_first:
  assumes "k \<in> set arrIn" "m sw k" "desc m idf arrIn (idf k) a"
  shows "desc m idf arrIn sw a"
  using desc_first_aux[OF assms(3) refl assms(1,2)] .

lemma desc_unfold:
  "desc m idf arrIn sw a \<longleftrightarrow>
     a \<in> set arrIn \<and> (m sw a \<or> (\<exists>k\<in>set arrIn. m sw k \<and> desc m idf arrIn (idf k) a))"
proof
  assume "desc m idf arrIn sw a"
  then show "a \<in> set arrIn \<and> (m sw a \<or> (\<exists>k\<in>set arrIn. m sw k \<and> desc m idf arrIn (idf k) a))"
  proof (induction rule: desc.induct)
    case (desc_child a sw)
    then show ?case by simp
  next
    case (desc_step sw b a)
    then show ?case
      by (metis desc.desc_child desc.desc_step)
  qed
next
  assume "a \<in> set arrIn \<and> (m sw a \<or> (\<exists>k\<in>set arrIn. m sw k \<and> desc m idf arrIn (idf k) a))"
  then show "desc m idf arrIn sw a"
    by (auto intro: desc_child desc_first)
qed

lemma desc_last:
  assumes "desc m idf arrIn sw a"
  shows "m sw a \<or> (\<exists>b\<in>set arrIn. m (idf b) a \<and> desc m idf arrIn sw b)"
  using assms by (cases rule: desc.cases) (auto dest: desc_in)

lemma gforest_depth:
  "gforest m idf d sw0 arrIn \<Longrightarrow> a \<in> set arrIn \<Longrightarrow> b \<in> set arrIn \<Longrightarrow> m (idf b) a \<Longrightarrow> d b < d a"
  unfolding gforest_def by blast

lemma gforest_top:
  "gforest m idf d sw0 arrIn \<Longrightarrow> a \<in> set arrIn \<Longrightarrow> b \<in> set arrIn \<Longrightarrow> m (idf b) a \<Longrightarrow> \<not> m sw0 a"
  unfolding gforest_def by blast

lemma gforest_unique:
  "gforest m idf d sw0 arrIn \<Longrightarrow> a \<in> set arrIn \<Longrightarrow> b \<in> set arrIn \<Longrightarrow> c \<in> set arrIn
     \<Longrightarrow> m (idf b) a \<Longrightarrow> m (idf c) a \<Longrightarrow> c = b"
  unfolding gforest_def by blast

lemma desc_depth_aux:
  assumes G: "gforest m idf d sw0 arrIn" and b: "b \<in> set arrIn"
  shows "desc m idf arrIn sw a \<Longrightarrow> sw = idf b \<Longrightarrow> d b < d a"
proof (induction rule: desc.induct)
  case (desc_child a sw)
  then have "m (idf b) a" by simp
  from gforest_depth[OF G desc_child.hyps(1) b this] show ?case .
next
  case (desc_step sw c a)
  have c: "c \<in> set arrIn" using desc_step.hyps(1) by (rule desc_in)
  have "d c < d a" using gforest_depth[OF G desc_step.hyps(2) c desc_step.hyps(3)] .
  moreover have "d b < d c" using desc_step.IH desc_step.prems by simp
  ultimately show ?case by simp
qed

lemma desc_depth:
  assumes "gforest m idf d sw0 arrIn" "b \<in> set arrIn" "desc m idf arrIn (idf b) a"
  shows "d b < d a"
  using desc_depth_aux[OF assms(1,2,3) refl] .

lemma desc_comparable_aux:
  assumes G: "gforest m idf d sw0 arrIn" and k: "k \<in> set arrIn" and k': "k' \<in> set arrIn"
  shows "desc m idf arrIn sw a \<Longrightarrow> sw = idf k \<Longrightarrow> desc m idf arrIn (idf k') a
     \<Longrightarrow> k = k' \<or> desc m idf arrIn (idf k) k' \<or> desc m idf arrIn (idf k') k"
proof (induction rule: desc.induct)
  case (desc_child a sw)
  have mk: "m (idf k) a" using desc_child.hyps(2) desc_child.prems(1) by simp
  from desc_last[OF desc_child.prems(2)] show ?case
  proof
    assume "m (idf k') a"
    from gforest_unique[OF G desc_child.hyps(1) k k' mk this] show ?thesis by simp
  next
    assume "\<exists>b\<in>set arrIn. m (idf b) a \<and> desc m idf arrIn (idf k') b"
    then obtain b where b: "b \<in> set arrIn" "m (idf b) a" "desc m idf arrIn (idf k') b" by blast
    from gforest_unique[OF G desc_child.hyps(1) k b(1) mk b(2)] have "b = k" .
    with b(3) show ?thesis by simp
  qed
next
  case (desc_step sw c a)
  have c: "c \<in> set arrIn" using desc_step.hyps(1) by (rule desc_in)
  have dc: "desc m idf arrIn (idf k) c" using desc_step.hyps(1) desc_step.prems(1) by simp
  from desc_last[OF desc_step.prems(2)] show ?case
  proof
    assume "m (idf k') a"
    from gforest_unique[OF G desc_step.hyps(2) c k' desc_step.hyps(3) this] have "k' = c" .
    with dc show ?thesis by simp
  next
    assume "\<exists>b\<in>set arrIn. m (idf b) a \<and> desc m idf arrIn (idf k') b"
    then obtain b where b: "b \<in> set arrIn" "m (idf b) a" "desc m idf arrIn (idf k') b" by blast
    from gforest_unique[OF G desc_step.hyps(2) c b(1) desc_step.hyps(3) b(2)] have "b = c" .
    with b(3) have "desc m idf arrIn (idf k') c" by simp
    from desc_step.IH[OF desc_step.prems(1) this] show ?thesis .
  qed
qed

lemma desc_comparable:
  assumes G: "gforest m idf d sw0 arrIn"
    and "k \<in> set arrIn" "k' \<in> set arrIn"
    and "desc m idf arrIn (idf k) a" "desc m idf arrIn (idf k') a"
  shows "k = k' \<or> desc m idf arrIn (idf k) k' \<or> desc m idf arrIn (idf k') k"
  using desc_comparable_aux[OF assms(1,2,3,4) refl assms(5)] .

lemma sibling_not_below:
  assumes G: "gforest m idf d sw0 arrIn"
    and sw: "sw = sw0 \<or> (\<exists>c\<in>set arrIn. sw = idf c)"
    and k: "k \<in> set arrIn" "m sw k" and k': "k' \<in> set arrIn" "m sw k'"
  shows "\<not> desc m idf arrIn (idf k') k"
proof
  assume below: "desc m idf arrIn (idf k') k"
  from desc_last[OF below] obtain b where
    b: "b \<in> set arrIn" "m (idf b) k" "b = k' \<or> desc m idf arrIn (idf k') b"
    using k'(1) by blast
  from sw show False
  proof
    assume "sw = sw0"
    with gforest_top[OF G k(1) b(1,2)] k(2) show False by simp
  next
    assume "\<exists>c\<in>set arrIn. sw = idf c"
    then obtain c where c: "c \<in> set arrIn" "sw = idf c" by blast
    have "m (idf c) k" using k(2) c(2) by simp
    from gforest_unique[OF G k(1) b(1) c(1) b(2) this] have "c = b" .
    have "m (idf c) k'" using k'(2) c(2) by simp
    from gforest_depth[OF G k'(1) c(1) this] have 1: "d c < d k'" .
    from b(3) have "d k' \<le> d b"
    proof
      assume "b = k'" then show ?thesis by simp
    next
      assume "desc m idf arrIn (idf k') b"
      from desc_depth[OF G k'(1) this] show ?thesis by simp
    qed
    with 1 \<open>c = b\<close> show False by simp
  qed
qed

lemma siblings_disjoint:
  assumes G: "gforest m idf d sw0 arrIn"
    and sw: "sw = sw0 \<or> (\<exists>c\<in>set arrIn. sw = idf c)"
    and k: "k \<in> set arrIn" "m sw k" and k': "k' \<in> set arrIn" "m sw k'" and ne: "k \<noteq> k'"
  shows "\<not> (desc m idf arrIn (idf k) a \<and> desc m idf arrIn (idf k') a)"
proof
  assume "desc m idf arrIn (idf k) a \<and> desc m idf arrIn (idf k') a"
  with desc_comparable[OF G k(1) k'(1)]
  have "k = k' \<or> desc m idf arrIn (idf k) k' \<or> desc m idf arrIn (idf k') k" by blast
  with ne sibling_not_below[OF G sw k k'] sibling_not_below[OF G sw k' k]
  show False by blast
qed

lemma not_below_itself:
  assumes "gforest m idf d sw0 arrIn" "k \<in> set arrIn"
  shows "\<not> desc m idf arrIn (idf k) k"
  using desc_depth[OF assms] by blast

section \<open>Reading and writing fields\<close>

lemma is_obj_set_field [simp]: "is_obj (set_field h a k v) b = is_obj h b"
  by (cases "a = b") (auto simp: set_field_def is_obj_def split: cell.splits)

lemma get_set_field_other:
  "a \<noteq> b \<or> k \<noteq> k' \<Longrightarrow> get_field (set_field h a k v) b k' = get_field h b k'"
  by (cases "a = b") (auto simp: set_field_def get_field_def update_conv' split: cell.splits)

lemma get_set_field_same:
  "is_obj h a \<Longrightarrow> get_field (set_field h a k v) a k = v"
  by (auto simp: set_field_def get_field_def is_obj_def update_conv' split: cell.splits)

lemma same_data_refl: "same_data meta h h"
  by (simp add: same_data_def)

lemma same_data_trans: "same_data meta h0 h1 \<Longrightarrow> same_data meta h1 h2 \<Longrightarrow> same_data meta h0 h2"
  by (simp add: same_data_def)

lemma same_data_set_field: "k \<in> set meta \<Longrightarrow> same_data meta h (set_field h a k v)"
  by (auto simp: same_data_def intro!: get_set_field_other)

lemma strict_eq_eq: "strict_eq x y \<Longrightarrow> x = y"
  by (cases x; cases y) auto

lemma strict_eq_trans: "strict_eq x y \<Longrightarrow> strict_eq x z \<Longrightarrow> strict_eq y z"
  by (cases x; cases y; cases z) auto

section \<open>array2SortByTree on a forest\<close>

lemma array2SortByTree_Suc:
  "array2SortByTree (Suc f) rt arrIn idKey parentKey sw level (h, acc) pidx =
     (if length acc \<le> length arrIn \<and> idKey \<noteq> [] \<and> parentKey \<noteq> [] then
        (if filter (matches4 rt h parentKey sw) arrIn \<noteq> [] then
           sortByTree_each f rt arrIn idKey parentKey level pidx
             (filter (matches4 rt h parentKey sw) arrIn) 0 (h, acc)
         else Some (mark_leaf h idKey sw acc, acc))
      else Some (h, acc))"
  by (simp add: Let_def)

lemma sortByTree_each_Cons:
  "sortByTree_each f rt arrIn idKey parentKey level pidx (el # els) idx (h, acc) =
     (case array2SortByTree f rt arrIn idKey parentKey
             (get_field (sortByTree_node rt level pidx idx el h) el idKey) (level + 1)
             (sortByTree_node rt level pidx idx el h, acc @ [el])
             (Some (tree_index rt pidx (idx + 1))) of
        None \<Rightarrow> None
      | Some s' \<Rightarrow> sortByTree_each f rt arrIn idKey parentKey level pidx els (idx + 1) s')"
  by (simp add: sortByTree_node_def Let_def)

lemma same_data_sortByTree_node:
  "same_data tree_meta h (sortByTree_node rt level pidx idx el h)"
  unfolding sortByTree_node_def
  by (intro same_data_trans[OF same_data_trans[OF same_data_set_field same_data_set_field]
        same_data_set_field]) (simp_all add: tree_meta_def)

lemma same_data_mark_leaf:
  "''$is_leaf'' \<in> set meta \<Longrightarrow> same_data meta h (mark_leaf h idKey sw xs)"
  by (simp add: mark_leaf_def same_data_refl same_data_set_field split: option.splits)

lemma sortByTree_each_frame:
  assumes call: "\<And>sw level h acc pidx h' acc'.
      array2SortByTree f rt arrIn idKey parentKey sw level (h, acc) pidx = Some (h', acc') \<Longrightarrow>
      same_data tree_meta h h' \<and> (\<exists>T. acc' = acc @ T)"
  shows "sortByTree_each f rt arrIn idKey parentKey level pidx els idx (h, acc) = Some (h', acc')
     \<Longrightarrow> same_data tree_meta h h' \<and> (\<exists>T. acc' = acc @ T)"
proof (induction els arbitrary: idx h acc)
  case Nil
  then show ?case by (simp add: same_data_refl)
next
  case (Cons el els)
  let ?h1 = "sortByTree_node rt level pidx idx el h"
  from Cons.prems obtain h2 acc2 where
    sub: "array2SortByTree f rt arrIn idKey parentKey (get_field ?h1 el idKey) (level + 1)
            (?h1, acc @ [el]) (Some (tree_index rt pidx (idx + 1))) = Some (h2, acc2)"
    and rest: "sortByTree_each f rt arrIn idKey parentKey level pidx els (idx + 1) (h2, acc2)
            = Some (h', acc')"
    unfolding sortByTree_each_Cons by (auto split: option.splits)
  from call[OF sub] obtain T1 where 1: "same_data tree_meta ?h1 h2" "acc2 = (acc @ [el]) @ T1"
    by blast
  from Cons.IH[OF rest] obtain T2 where 2: "same_data tree_meta h2 h'" "acc' = acc2 @ T2"
    by blast
  have "same_data tree_meta h h'"
    using same_data_trans[OF same_data_trans[OF same_data_sortByTree_node 1(1)] 2(1)] .
  moreover have "acc' = acc @ ([el] @ T1 @ T2)" using 1(2) 2(2) by simp
  ultimately show ?case by blast
qed

lemma array2SortByTree_frame:
  "array2SortByTree f rt arrIn idKey parentKey sw level (h, acc) pidx = Some (h', acc') \<Longrightarrow>
     same_data tree_meta h h' \<and> (\<exists>T. acc' = acc @ T)"
proof (induction f arbitrary: sw level h acc pidx h' acc')
  case 0
  then show ?case by simp
next
  case (Suc f)
  show ?case
  proof (cases "length acc \<le> length arrIn \<and> idKey \<noteq> [] \<and> parentKey \<noteq> []")
    case False
    with Suc.prems show ?thesis
      unfolding array2SortByTree_Suc by (auto simp: same_data_refl)
  next
    case True
    show ?thesis
    proof (cases "filter (matches4 rt h parentKey sw) arrIn = []")
      case True
      with Suc.prems \<open>length acc \<le> length arrIn \<and> idKey \<noteq> [] \<and> parentKey \<noteq> []\<close>
      have "h' = mark_leaf h idKey sw acc" "acc' = acc"
        unfolding array2SortByTree_Suc by auto
      then show ?thesis by (simp add: same_data_mark_leaf tree_meta_def)
    next
      case False
      with Suc.prems True have
        "sortByTree_each f rt arrIn idKey parentKey level pidx
           (filter (matches4 rt h parentKey sw) arrIn) 0 (h, acc) = Some (h', acc')"
        unfolding array2SortByTree_Suc by simp
      from sortByTree_each_frame[where f = f, OF Suc.IH this] show ?thesis .
    qed
  qed
qed

lemma loose_eq_empty_prim:
  "\<not> is_ref p \<Longrightarrow> loose_eq_empty rt h p = loose_eq_empty rt h0 p"
  by (cases p) simp_all

lemma matches4_same_data:
  assumes "same_data meta h0 h" "parentKey \<notin> set meta" "\<not> is_ref (get_field h0 a parentKey)"
  shows "matches4 rt h parentKey sw a = matches4 rt h0 parentKey sw a"
proof -
  have "get_field h a parentKey = get_field h0 a parentKey"
    using assms(1,2) by (simp add: same_data_def)
  then show ?thesis
    using loose_eq_empty_prim[OF assms(3), of rt h h0] by (simp add: matches4_def)
qed

lemma distinct_subset_length:
  assumes "distinct acc" "set acc \<subseteq> set arrIn"
  shows "length acc \<le> length arrIn"
proof -
  have "length acc = card (set acc)" using assms(1) by (simp add: distinct_card)
  also have "\<dots> \<le> card (set arrIn)" using assms(2) by (simp add: card_mono)
  also have "\<dots> \<le> length arrIn" by (rule card_length)
  finally show ?thesis .
qed

lemma gforest_matches4:
  assumes U: "unique_ids h idKey arrIn" and A: "acyclic_parents h idKey parentKey d arrIn"
    and P: "plain_parents rt h idKey parentKey arrIn"
  shows "gforest (matches4 rt h parentKey) (\<lambda>a. get_field h a idKey) d JNull arrIn"
  unfolding gforest_def
proof (intro ballI impI)
  fix a b assume a: "a \<in> set arrIn" and b: "b \<in> set arrIn"
    and mb: "matches4 rt h parentKey (get_field h b idKey) a"
  have nb: "\<not> loose_eq_null (get_field h b idKey)" using U b by (simp add: unique_ids_def)
  with mb have se: "strict_eq (get_field h a parentKey) (get_field h b idKey)"
    by (simp add: matches4_def)
  then have eq: "get_field h a parentKey = get_field h b idKey" by (rule strict_eq_eq)
  have 1: "d b < d a" using A a b se by (simp add: acyclic_parents_def)
  have "\<not> loose_eq_empty rt h (get_field h a parentKey)"
    using P a b se unfolding plain_parents_def by blast
  moreover have "\<not> loose_eq_null (get_field h a parentKey)" using nb eq by simp
  moreover have "\<not> strict_eq (get_field h a parentKey) JNull"
    using nb eq strict_eq_eq[of "get_field h a parentKey" JNull] by (auto simp: loose_eq_null_def)
  ultimately have 2: "\<not> matches4 rt h parentKey JNull a" by (simp add: matches4_def)
  have 3: "\<forall>c\<in>set arrIn. matches4 rt h parentKey (get_field h c idKey) a \<longrightarrow> c = b"
  proof (intro ballI impI)
    fix c assume c: "c \<in> set arrIn" and mc: "matches4 rt h parentKey (get_field h c idKey) a"
    have "\<not> loose_eq_null (get_field h c idKey)" using U c by (simp add: unique_ids_def)
    with mc have "strict_eq (get_field h a parentKey) (get_field h c idKey)"
      by (simp add: matches4_def)
    from strict_eq_trans[OF this se] show "c = b" using U b c by (simp add: unique_ids_def)
  qed
  from 1 2 3 show "d b < d a \<and> \<not> matches4 rt h parentKey JNull a \<and>
      (\<forall>c\<in>set arrIn. matches4 rt h parentKey (get_field h c idKey) a \<longrightarrow> c = b)"
    by simp
qed

lemma attached_below_root:
  assumes G: "gforest (matches4 rt h parentKey) (\<lambda>a. get_field h a idKey) d JNull arrIn"
    and T: "all_attached rt h idKey parentKey arrIn"
  shows "a \<in> set arrIn \<Longrightarrow>
     desc (matches4 rt h parentKey) (\<lambda>a. get_field h a idKey) arrIn JNull a"
proof (induction a rule: measure_induct_rule[of d])
  case (less a)
  from T less.prems have
    "matches4 rt h parentKey JNull a \<or>
       (\<exists>b\<in>set arrIn. strict_eq (get_field h a parentKey) (get_field h b idKey))"
    by (simp add: all_attached_def)
  then show ?case
  proof
    assume "matches4 rt h parentKey JNull a"
    with less.prems show ?thesis by (rule desc_child)
  next
    assume "\<exists>b\<in>set arrIn. strict_eq (get_field h a parentKey) (get_field h b idKey)"
    then obtain b where b: "b \<in> set arrIn"
      and se: "strict_eq (get_field h a parentKey) (get_field h b idKey)" by blast
    then have mb: "matches4 rt h parentKey (get_field h b idKey) a" by (simp add: matches4_def)
    from gforest_depth[OF G less.prems b] mb have "d b < d a" by simp
    from less.IH[OF this b] show ?thesis
      by (rule desc_step[where b = b and m = "matches4 rt h parentKey"
            and idf = "\<lambda>a. get_field h a idKey", OF _ less.prems mb])
  qed
qed

section \<open>array2SortAndWeight: the fields it writes\<close>

lemma array2SortAndWeight_Suc:
  "array2SortAndWeight (Suc f) rt arrIn idKey parentKey weightKey sw level rootWeight (h, acc) pidx =
     (if length acc \<le> length arrIn then
        (if filter (matches3 h parentKey sw) arrIn \<noteq> [] then
           sortAndWeight_each f rt arrIn idKey parentKey weightKey level rootWeight pidx
             (sum_weight rt h weightKey (filter (matches3 h parentKey sw) arrIn))
             (filter (matches3 h parentKey sw) arrIn) 0 (h, acc)
         else Some (mark_leaf h idKey sw acc, acc))
      else Some (h, acc))"
  by (simp add: Let_def)

lemma sortAndWeight_each_Cons:
  "sortAndWeight_each f rt arrIn idKey parentKey weightKey level rootWeight pidx sumWeight
       (el # els) idx (h, acc) =
     (case array2SortAndWeight f rt arrIn idKey parentKey weightKey
             (get_field (sortAndWeight_node rt weightKey level rootWeight pidx sumWeight idx el h)
                el idKey)
             (level + 1)
             (to_number rt
                (get_field (sortAndWeight_node rt weightKey level rootWeight pidx sumWeight idx el h)
                   el ''$root_weight_percent''))
             (sortAndWeight_node rt weightKey level rootWeight pidx sumWeight idx el h, acc @ [el])
             (Some (tree_index rt pidx (idx + 1))) of
        None \<Rightarrow> None
      | Some s' \<Rightarrow> sortAndWeight_each f rt arrIn idKey parentKey weightKey level rootWeight pidx
                     sumWeight els (idx + 1) s')"
  by (simp add: sortAndWeight_node_def Let_def)

text \<open>What a node holds after the assignments of one step.\<close>

lemma sortAndWeight_node_other:
  "a \<noteq> el \<or> k \<notin> set weight_meta \<or> k = ''$is_leaf'' \<Longrightarrow>
     get_field (sortAndWeight_node rt weightKey level rootWeight pidx sumWeight idx el h) a k
       = get_field h a k"
  unfolding sortAndWeight_node_def Let_def
  by (auto simp: get_set_field_other weight_meta_def)

lemma is_obj_sortAndWeight_node [simp]:
  "is_obj (sortAndWeight_node rt weightKey level rootWeight pidx sumWeight idx el h) a = is_obj h a"
  unfolding sortAndWeight_node_def Let_def by simp

lemma length_sortAndWeight_node [simp]:
  "length (sortAndWeight_node rt weightKey level rootWeight pidx sumWeight idx el h) = length h"
  unfolding sortAndWeight_node_def Let_def by simp

lemma same_data_sortAndWeight_node:
  "same_data weight_meta h (sortAndWeight_node rt weightKey level rootWeight pidx sumWeight idx el h)"
  by (simp add: same_data_def sortAndWeight_node_other)

lemma sortAndWeight_node_weight_percent:
  assumes "is_obj h el" "weightKey \<notin> set weight_meta"
  shows "get_field (sortAndWeight_node rt weightKey level rootWeight pidx sumWeight idx el h) el
           ''$weight_percent''
         = js_div rt (set_field h el ''$sum_weight'' sumWeight)
             (js_or (get_field h el weightKey) (num_of_nat 0)) sumWeight"
proof -
  have "weightKey \<noteq> ''$sum_weight''" using assms(2) by (auto simp: weight_meta_def)
  then have w: "get_field (set_field h el ''$sum_weight'' sumWeight) el weightKey
                  = get_field h el weightKey"
    by (simp add: get_set_field_other)
  show ?thesis
    unfolding sortAndWeight_node_def Let_def w
    using assms(1) by (simp add: get_set_field_other get_set_field_same)
qed



lemma sortAndWeight_each_frame:
  assumes call: "\<forall>sw level rootWeight h acc pidx h' acc'.
      array2SortAndWeight f rt arrIn idKey parentKey weightKey sw level rootWeight (h, acc) pidx
        = Some (h', acc') \<longrightarrow>
      same_data weight_meta h h' \<and> (\<exists>T. acc' = acc @ T)"
  shows "sortAndWeight_each f rt arrIn idKey parentKey weightKey level rootWeight pidx sumWeight
           els idx (h, acc) = Some (h', acc')
     \<Longrightarrow> same_data weight_meta h h' \<and> (\<exists>T. acc' = acc @ T)"
proof (induction els arbitrary: idx h acc)
  case Nil
  then show ?case by (simp add: same_data_refl)
next
  case (Cons el els)
  let ?h1 = "sortAndWeight_node rt weightKey level rootWeight pidx sumWeight idx el h"
  from Cons.prems obtain h2 acc2 where
    sub: "array2SortAndWeight f rt arrIn idKey parentKey weightKey (get_field ?h1 el idKey)
            (level + 1) (to_number rt (get_field ?h1 el ''$root_weight_percent''))
            (?h1, acc @ [el]) (Some (tree_index rt pidx (idx + 1))) = Some (h2, acc2)"
    and rest: "sortAndWeight_each f rt arrIn idKey parentKey weightKey level rootWeight pidx
            sumWeight els (idx + 1) (h2, acc2) = Some (h', acc')"
    unfolding sortAndWeight_each_Cons by (auto split: option.splits)
  from call sub obtain T1 where 1: "same_data weight_meta ?h1 h2" "acc2 = (acc @ [el]) @ T1"
    by blast
  from Cons.IH[OF rest] obtain T2 where 2: "same_data weight_meta h2 h'" "acc' = acc2 @ T2"
    by blast
  have "same_data weight_meta h h'"
    using same_data_trans[OF same_data_trans[OF same_data_sortAndWeight_node 1(1)] 2(1)] .
  moreover have "acc' = acc @ ([el] @ T1 @ T2)" using 1(2) 2(2) by simp
  ultimately show ?case by blast
qed

lemma array2SortAndWeight_frame:
  "array2SortAndWeight f rt arrIn idKey parentKey weightKey sw level rootWeight (h, acc) pidx
     = Some (h', acc') \<Longrightarrow>
     same_data weight_meta h h' \<and> (\<exists>T. acc' = acc @ T)"
proof (induction f arbitrary: sw level rootWeight h acc pidx h' acc')
  case 0
  then show ?case by simp
next
  case (Suc f)
  have call: "\<forall>sw level rootWeight h acc pidx h' acc'.
      array2SortAndWeight f rt arrIn idKey parentKey weightKey sw level rootWeight (h, acc) pidx
        = Some (h', acc') \<longrightarrow>
      same_data weight_meta h h' \<and> (\<exists>T. acc' = acc @ T)"
    by (intro allI impI) (rule Suc.IH)
  show ?case
  proof (cases "length acc \<le> length arrIn")
    case False
    with Suc.prems show ?thesis
      unfolding array2SortAndWeight_Suc by (auto simp: same_data_refl)
  next
    case True
    show ?thesis
    proof (cases "filter (matches3 h parentKey sw) arrIn = []")
      case True
      with Suc.prems \<open>length acc \<le> length arrIn\<close>
      have "h' = mark_leaf h idKey sw acc" "acc' = acc"
        unfolding array2SortAndWeight_Suc by auto
      then show ?thesis by (simp add: same_data_mark_leaf weight_meta_def)
    next
      case False
      with Suc.prems True have
        "sortAndWeight_each f rt arrIn idKey parentKey weightKey level rootWeight pidx
           (sum_weight rt h weightKey (filter (matches3 h parentKey sw) arrIn))
           (filter (matches3 h parentKey sw) arrIn) 0 (h, acc) = Some (h', acc')"
        unfolding array2SortAndWeight_Suc by simp
      from sortAndWeight_each_frame[where f = f, OF call this] show ?thesis .
    qed
  qed
qed

lemma matches3_same_data:
  assumes "same_data meta h0 h" "parentKey \<notin> set meta"
  shows "matches3 h parentKey sw a = matches3 h0 parentKey sw a"
  using assms by (simp add: same_data_def matches3_def)

text \<open>The group of a record: the records matched by the start value that matches it are
  the records matched by its own parent value.\<close>

lemma matches3_group:
  assumes "matches3 h parentKey sw el"
  shows "matches3 h parentKey sw b = matches3 h parentKey (get_field h el parentKey) b"
proof (cases "strict_eq (get_field h el parentKey) sw")
  case True
  then have "get_field h el parentKey = sw" by (rule strict_eq_eq)
  then show ?thesis by simp
next
  case False
  with assms have n: "loose_eq_null sw" "loose_eq_null (get_field h el parentKey)"
    by (auto simp: matches3_def)
  have "strict_eq x y \<Longrightarrow> loose_eq_null y \<Longrightarrow> loose_eq_null x" for x y
    using strict_eq_eq[of x y] by simp
  with n show ?thesis by (auto simp: matches3_def)
qed


section \<open>array2SortAndWeight: the share of every record\<close>

lemma js_add_not_ref [simp]: "\<not> is_ref (js_add rt h a b)"
  by (simp add: js_add_def Let_def)

lemma js_or_not_ref: "\<not> is_ref a \<Longrightarrow> \<not> is_ref (js_or a (num_of_nat 0))"
  by (simp add: js_or_def num_of_nat_def)

lemma to_primitive_prim: "\<not> is_ref a \<Longrightarrow> to_primitive rt h a = a"
  by (cases a) simp_all

lemma js_add_prim: "\<not> is_ref a \<Longrightarrow> \<not> is_ref b \<Longrightarrow> js_add rt h a b = js_add rt h0 a b"
  by (simp add: js_add_def to_primitive_prim)

lemma js_div_prim: "\<not> is_ref a \<Longrightarrow> \<not> is_ref b \<Longrightarrow> js_div rt h a b = js_div rt h0 a b"
  by (simp add: js_div_def to_primitive_prim)

lemma sum_weight_foldl_same:
  assumes "\<forall>a\<in>set xs. get_field h a weightKey = get_field h0 a weightKey
             \<and> \<not> is_ref (get_field h0 a weightKey)"
  shows "\<not> is_ref s \<Longrightarrow>
     foldl (\<lambda>sum obj. js_add rt h sum (js_or (get_field h obj weightKey) (num_of_nat 0))) s xs
     = foldl (\<lambda>sum obj. js_add rt h0 sum (js_or (get_field h0 obj weightKey) (num_of_nat 0))) s xs
     \<and> \<not> is_ref
        (foldl (\<lambda>sum obj. js_add rt h0 sum (js_or (get_field h0 obj weightKey) (num_of_nat 0))) s xs)"
  using assms
proof (induction xs arbitrary: s)
  case Nil
  then show ?case by simp
next
  case (Cons x xs)
  have x: "get_field h x weightKey = get_field h0 x weightKey"
    "\<not> is_ref (js_or (get_field h0 x weightKey) (num_of_nat 0))"
    using Cons.prems(2) by (simp_all add: js_or_not_ref)
  have step: "js_add rt h s (js_or (get_field h x weightKey) (num_of_nat 0))
        = js_add rt h0 s (js_or (get_field h0 x weightKey) (num_of_nat 0))"
    unfolding x(1) by (rule js_add_prim[OF Cons.prems(1) x(2)])
  have "\<forall>a\<in>set xs. get_field h a weightKey = get_field h0 a weightKey
             \<and> \<not> is_ref (get_field h0 a weightKey)"
    using Cons.prems(2) by simp
  from Cons.IH[OF js_add_not_ref this] show ?case
    by (simp add: step)
qed

lemma sum_weight_same_data:
  assumes "same_data meta h0 h" "weightKey \<notin> set meta"
    "\<forall>a\<in>set xs. \<not> is_ref (get_field h0 a weightKey)"
  shows "sum_weight rt h weightKey xs = sum_weight rt h0 weightKey xs"
proof -
  have "\<forall>a\<in>set xs. get_field h a weightKey = get_field h0 a weightKey
             \<and> \<not> is_ref (get_field h0 a weightKey)"
    using assms by (simp add: same_data_def)
  from sum_weight_foldl_same[OF this, of "num_of_nat 0" rt] show ?thesis
    by (simp add: sum_weight_def num_of_nat_def)
qed

lemma sum_weight_not_ref:
  assumes "\<forall>a\<in>set xs. \<not> is_ref (get_field h0 a weightKey)"
  shows "\<not> is_ref (sum_weight rt h0 weightKey xs)"
proof -
  have "\<forall>a\<in>set xs. get_field h0 a weightKey = get_field h0 a weightKey
             \<and> \<not> is_ref (get_field h0 a weightKey)"
    using assms by simp
  from sum_weight_foldl_same[OF this, of "num_of_nat 0" rt] show ?thesis
    by (simp add: sum_weight_def num_of_nat_def)
qed

lemma get_field_mark_leaf_other:
  "k \<noteq> ''$is_leaf'' \<Longrightarrow> get_field (mark_leaf h idKey sw xs) a k = get_field h a k"
  by (simp add: mark_leaf_def get_set_field_other split: option.splits)

lemma sortAndWeight_each_share:
  assumes objs: "\<forall>a\<in>set arrIn. is_obj h0 a"
    and keys: "parentKey \<notin> set weight_meta" "weightKey \<notin> set weight_meta"
    and prim: "\<forall>a\<in>set arrIn. \<not> is_ref (get_field h0 a weightKey)"
    and call: "\<forall>sw level rootWeight h acc pidx h' acc'.
      same_data weight_meta h0 h \<longrightarrow>
      (\<forall>a\<in>set acc. get_field h a ''$weight_percent''
                       = weight_share rt h0 weightKey parentKey arrIn a) \<longrightarrow>
      array2SortAndWeight f rt arrIn idKey parentKey weightKey sw level rootWeight (h, acc) pidx
        = Some (h', acc') \<longrightarrow>
      (\<forall>a\<in>set acc'. get_field h' a ''$weight_percent''
                       = weight_share rt h0 weightKey parentKey arrIn a)"
    and group: "sumWeight = sum_weight rt h0 weightKey (filter (matches3 h0 parentKey sw) arrIn)"
  shows "same_data weight_meta h0 h \<Longrightarrow>
      (\<forall>a\<in>set acc. get_field h a ''$weight_percent''
                       = weight_share rt h0 weightKey parentKey arrIn a) \<Longrightarrow>
      (\<forall>k\<in>set els. k \<in> set arrIn \<and> matches3 h0 parentKey sw k) \<Longrightarrow>
      sortAndWeight_each f rt arrIn idKey parentKey weightKey level rootWeight pidx sumWeight
        els idx (h, acc) = Some (h', acc') \<Longrightarrow>
      (\<forall>a\<in>set acc'. get_field h' a ''$weight_percent''
                       = weight_share rt h0 weightKey parentKey arrIn a)"
proof (induction els arbitrary: idx h acc)
  case Nil
  then show ?case by simp
next
  case (Cons el els)
  let ?h1 = "sortAndWeight_node rt weightKey level rootWeight pidx sumWeight idx el h"
  have el: "el \<in> set arrIn" "matches3 h0 parentKey sw el" using Cons.prems(3) by simp_all
  from Cons.prems(4) obtain h2 acc2 where
    sub: "array2SortAndWeight f rt arrIn idKey parentKey weightKey (get_field ?h1 el idKey)
            (level + 1) (to_number rt (get_field ?h1 el ''$root_weight_percent''))
            (?h1, acc @ [el]) (Some (tree_index rt pidx (idx + 1))) = Some (h2, acc2)"
    and rest: "sortAndWeight_each f rt arrIn idKey parentKey weightKey level rootWeight pidx
            sumWeight els (idx + 1) (h2, acc2) = Some (h', acc')"
    unfolding sortAndWeight_each_Cons by (auto split: option.splits)
  have sd1: "same_data weight_meta h0 ?h1"
    using same_data_trans[OF Cons.prems(1) same_data_sortAndWeight_node] .
  have obj: "is_obj h el" using objs el(1) Cons.prems(1) by (simp add: same_data_def)
  have w: "get_field h el weightKey = get_field h0 el weightKey"
    using Cons.prems(1) keys(2) by (simp add: same_data_def)
  have pw: "\<not> is_ref (js_or (get_field h0 el weightKey) (num_of_nat 0))"
    using prim el(1) by (simp add: js_or_not_ref)
  have "filter (matches3 h0 parentKey sw) arrIn
        = filter (matches3 h0 parentKey (get_field h0 el parentKey)) arrIn"
    by (rule filter_cong[OF refl]) (rule matches3_group[OF el(2)])
  then have sw: "sumWeight = sum_weight rt h0 weightKey
        (filter (matches3 h0 parentKey (get_field h0 el parentKey)) arrIn)"
    using group by simp
  have ps: "\<not> is_ref sumWeight"
    unfolding group by (rule sum_weight_not_ref) (use prim in simp)
  have new: "get_field ?h1 el ''$weight_percent'' = weight_share rt h0 weightKey parentKey arrIn el"
    unfolding sortAndWeight_node_weight_percent[OF obj keys(2)] w weight_share_def sw[symmetric]
    by (rule js_div_prim[OF pw ps])
  have inv1: "\<forall>a\<in>set (acc @ [el]). get_field ?h1 a ''$weight_percent''
                       = weight_share rt h0 weightKey parentKey arrIn a"
  proof
    fix a assume a: "a \<in> set (acc @ [el])"
    show "get_field ?h1 a ''$weight_percent'' = weight_share rt h0 weightKey parentKey arrIn a"
    proof (cases "a = el")
      case True
      with new show ?thesis by simp
    next
      case False
      with a Cons.prems(2) show ?thesis by (simp add: sortAndWeight_node_other)
    qed
  qed
  from call sd1 inv1 sub have inv2:
    "\<forall>a\<in>set acc2. get_field h2 a ''$weight_percent''
                       = weight_share rt h0 weightKey parentKey arrIn a"
    by blast
  from array2SortAndWeight_frame[OF sub] have sd2: "same_data weight_meta h0 h2"
    using same_data_trans[OF sd1] by blast
  have "\<forall>k\<in>set els. k \<in> set arrIn \<and> matches3 h0 parentKey sw k" using Cons.prems(3) by simp
  from Cons.IH[OF sd2 inv2 this rest] show ?case .
qed

lemma array2SortAndWeight_share:
  assumes objs: "\<forall>a\<in>set arrIn. is_obj h0 a"
    and keys: "parentKey \<notin> set weight_meta" "weightKey \<notin> set weight_meta"
    and prim: "\<forall>a\<in>set arrIn. \<not> is_ref (get_field h0 a weightKey)"
  shows "same_data weight_meta h0 h \<Longrightarrow>
      (\<forall>a\<in>set acc. get_field h a ''$weight_percent''
                       = weight_share rt h0 weightKey parentKey arrIn a) \<Longrightarrow>
      array2SortAndWeight f rt arrIn idKey parentKey weightKey sw level rootWeight (h, acc) pidx
        = Some (h', acc') \<Longrightarrow>
      (\<forall>a\<in>set acc'. get_field h' a ''$weight_percent''
                       = weight_share rt h0 weightKey parentKey arrIn a)"
proof (induction f arbitrary: sw level rootWeight h acc pidx h' acc')
  case 0
  then show ?case by simp
next
  case (Suc f)
  have call: "\<forall>sw level rootWeight h acc pidx h' acc'.
      same_data weight_meta h0 h \<longrightarrow>
      (\<forall>a\<in>set acc. get_field h a ''$weight_percent''
                       = weight_share rt h0 weightKey parentKey arrIn a) \<longrightarrow>
      array2SortAndWeight f rt arrIn idKey parentKey weightKey sw level rootWeight (h, acc) pidx
        = Some (h', acc') \<longrightarrow>
      (\<forall>a\<in>set acc'. get_field h' a ''$weight_percent''
                       = weight_share rt h0 weightKey parentKey arrIn a)"
    by (intro allI impI) (rule Suc.IH)
  have kids_eq: "filter (matches3 h parentKey sw) arrIn = filter (matches3 h0 parentKey sw) arrIn"
    by (rule filter_cong[OF refl]) (rule matches3_same_data[OF Suc.prems(1) keys(1)])
  show ?case
  proof (cases "length acc \<le> length arrIn")
    case False
    with Suc.prems show ?thesis unfolding array2SortAndWeight_Suc by auto
  next
    case True
    show ?thesis
    proof (cases "filter (matches3 h0 parentKey sw) arrIn = []")
      case True
      with Suc.prems(3) \<open>length acc \<le> length arrIn\<close>
      have "h' = mark_leaf h idKey sw acc" "acc' = acc"
        unfolding array2SortAndWeight_Suc kids_eq by auto
      with Suc.prems(2) show ?thesis by (simp add: get_field_mark_leaf_other)
    next
      case False
      have sum_eq: "sum_weight rt h weightKey (filter (matches3 h0 parentKey sw) arrIn)
            = sum_weight rt h0 weightKey (filter (matches3 h0 parentKey sw) arrIn)"
        by (rule sum_weight_same_data[OF Suc.prems(1) keys(2)]) (use prim in simp)
      from False Suc.prems(3) True have run:
        "sortAndWeight_each f rt arrIn idKey parentKey weightKey level rootWeight pidx
           (sum_weight rt h0 weightKey (filter (matches3 h0 parentKey sw) arrIn))
           (filter (matches3 h0 parentKey sw) arrIn) 0 (h, acc) = Some (h', acc')"
        unfolding array2SortAndWeight_Suc kids_eq sum_eq by simp
      have "\<forall>k\<in>set (filter (matches3 h0 parentKey sw) arrIn).
              k \<in> set arrIn \<and> matches3 h0 parentKey sw k"
        by simp
      from sortAndWeight_each_share[where f = f, OF objs keys prim call refl Suc.prems(1,2)
          this run]
      show ?thesis .
    qed
  qed
qed

lemma num_div_by_zero: "num_div rt x (Fin 0) \<noteq> Fin r"
  by (cases x) (simp_all add: inf_signed_def)

text \<open>
  C2, as the code has it. For \<^verbatim>\<open>[{id: 1, parent_id: null, weight: 0}]\<close> the sibling group
  of the record has total weight 0 and the record gets \<^verbatim>\<open>$weight_percent = 0 / 0\<close>, which
  is \<^verbatim>\<open>NaN\<close>, not 0.
\<close>

theorem C2_zero_total_gives_NaN:
  "get_field (fst (the (array2SortAndWeight 3 rt_sample [0] ''id'' ''parent_id'' ''weight'' JNull 1
                          (Fin 1) (h_zero, []) None))) 0 ''$weight_percent'' = JNum NaN"
  by code_simp

text \<open>
  C2, amended. Let the records be objects with primitive weight values, and the parent
  and weight key names none of the fields the flattener writes. For every record that
  \<^verbatim>\<open>array2SortAndWeight\<close> returns and whose sibling group (the records matched by its
  parent value) has the total weight 0, as the code sums it, the final
  \<^verbatim>\<open>$weight_percent\<close> is its own weight divided by zero: never a finite number, and
  \<^verbatim>\<open>NaN\<close> when its own weight is zero or missing. There is no guard against the division
  by zero.
\<close>

theorem C2_zero_total_share_undefined:
  assumes objs: "\<forall>a\<in>set arrIn. is_obj h a"
    and keys: "parentKey \<notin> set weight_meta" "weightKey \<notin> set weight_meta"
    and prim: "\<forall>a\<in>set arrIn. \<not> is_ref (get_field h a weightKey)"
    and run: "array2SortAndWeight fuel rt arrIn idKey parentKey weightKey startWith level rootWeight
                (h, []) parentIndex = Some (h', out)"
    and a: "a \<in> set out"
    and zero: "sum_weight rt h weightKey
                 (filter (matches3 h parentKey (get_field h a parentKey)) arrIn) = JNum (Fin 0)"
  shows "(\<forall>r. get_field h' a ''$weight_percent'' \<noteq> JNum (Fin r)) \<and>
         (\<not> truthy (get_field h a weightKey) \<longrightarrow> get_field h' a ''$weight_percent'' = JNum NaN)"
proof -
  have "\<forall>a\<in>set out. get_field h' a ''$weight_percent''
                       = weight_share rt h weightKey parentKey arrIn a"
    by (rule array2SortAndWeight_share[OF objs keys prim same_data_refl _ run]) simp
  with a have eq: "get_field h' a ''$weight_percent''
      = js_div rt h (js_or (get_field h a weightKey) (num_of_nat 0)) (JNum (Fin 0))"
    by (simp add: weight_share_def zero)
  have 1: "\<forall>r. get_field h' a ''$weight_percent'' \<noteq> JNum (Fin r)"
    unfolding eq js_div_def by (simp add: num_div_by_zero)
  have 2: "\<not> truthy (get_field h a weightKey) \<longrightarrow> get_field h' a ''$weight_percent'' = JNum NaN"
    unfolding eq js_div_def by (simp add: js_or_def num_of_nat_def)
  from 1 2 show ?thesis by simp
qed

theorem C2_zero_total_share_undefined_witness:
  "array2SortAndWeight 3 rt_sample [0] ''id'' ''parent_id'' ''weight'' JNull 1 (Fin 1)
     (h_zero, []) None \<noteq> None \<and>
   sum_weight rt_sample h_zero ''weight''
     (filter (matches3 h_zero ''parent_id'' (get_field h_zero 0 ''parent_id'')) [0]) = JNum (Fin 0) \<and>
   get_field (fst (the (array2SortAndWeight 3 rt_sample [0] ''id'' ''parent_id'' ''weight'' JNull 1
                          (Fin 1) (h_zero, []) None))) 0 ''$weight_percent'' \<noteq> JNum (Fin 0)"
proof -
  have ne: "array2SortAndWeight 3 rt_sample [0] ''id'' ''parent_id'' ''weight'' JNull 1 (Fin 1)
     (h_zero, []) None \<noteq> None"
    by code_simp
  then obtain h' out where
    run: "array2SortAndWeight 3 rt_sample [0] ''id'' ''parent_id'' ''weight'' JNull 1 (Fin 1)
     (h_zero, []) None = Some (h', out)"
    by (metis not_None_eq surj_pair)
  have out: "0 \<in> set (snd (the (array2SortAndWeight 3 rt_sample [0] ''id'' ''parent_id''
      ''weight'' JNull 1 (Fin 1) (h_zero, []) None)))"
    by code_simp
  then have a: "0 \<in> set out" unfolding run by (simp only: option.sel snd_conv)
  have objs: "\<forall>a\<in>set [0]. is_obj h_zero a" by code_simp
  have prim: "\<forall>a\<in>set [0]. \<not> is_ref (get_field h_zero a ''weight'')" by code_simp
  have keys: "''parent_id'' \<notin> set weight_meta" "''weight'' \<notin> set weight_meta"
    by (simp_all add: weight_meta_def)
  have zero: "sum_weight rt_sample h_zero ''weight''
     (filter (matches3 h_zero ''parent_id'' (get_field h_zero 0 ''parent_id'')) [0]) = JNum (Fin 0)"
    by code_simp
  from C2_zero_total_share_undefined[OF objs keys prim run a zero]
  have "get_field h' 0 ''$weight_percent'' \<noteq> JNum (Fin 0)" by blast
  then have "get_field (fst (the (array2SortAndWeight 3 rt_sample [0] ''id'' ''parent_id''
      ''weight'' JNull 1 (Fin 1) (h_zero, []) None))) 0 ''$weight_percent'' \<noteq> JNum (Fin 0)"
    unfolding run by (simp only: option.sel fst_conv simp_thms)
  with ne zero show ?thesis by (simp only: simp_thms)
qed

section \<open>array2SortAndWeight: what a call leaves untouched\<close>

lemma get_set_field:
  "get_field (set_field h x k v) a k' =
     (if a = x \<and> k' = k \<and> is_obj h x then v else get_field h a k')"
proof (cases "a = x \<and> k' = k")
  case True
  show ?thesis
  proof (cases "is_obj h x")
    case True
    with \<open>a = x \<and> k' = k\<close> show ?thesis by (simp add: get_set_field_same)
  next
    case False
    then have "set_field h x k v = h"
      by (auto simp: set_field_def is_obj_def split: cell.splits)
    with False show ?thesis by simp
  qed
next
  case False
  then show ?thesis by (auto simp: get_set_field_other)
qed

lemma leaf_mark_leaf: "leaf h a \<Longrightarrow> leaf (mark_leaf h idKey sw xs) a"
  by (simp add: leaf_def mark_leaf_def get_set_field split: option.splits)




section \<open>Putting the subtrees of siblings together\<close>




section \<open>The leaf mark\<close>

lemma mark_leaf_finds:
  assumes U: "unique_ids h0 idKey arrIn" and sd: "same_data meta h0 h" and key: "idKey \<notin> set meta"
    and acc: "set acc \<subseteq> set arrIn" and c: "c \<in> set acc" and obj: "is_obj h c"
  shows "leaf (mark_leaf h idKey (get_field h0 c idKey) acc) c"
proof -
  let ?P = "\<lambda>x. strict_eq (get_field h x idKey) (get_field h0 c idKey)"
  have same: "get_field h x idKey = get_field h0 x idKey" for x
    using sd key by (simp add: same_data_def)
  have cin: "c \<in> set arrIn" using acc c by blast
  have "?P c" using U cin by (simp add: same unique_ids_def)
  with c have "List.find ?P acc \<noteq> None" by (auto simp: find_None_iff)
  then obtain x where x: "List.find ?P acc = Some x" by blast
  then have "?P x" "x \<in> set acc" by (auto simp: find_Some_iff)
  then have "strict_eq (get_field h0 x idKey) (get_field h0 c idKey)" "x \<in> set arrIn"
    using acc by (auto simp: same)
  with U cin have "x = c" by (simp add: unique_ids_def)
  with x obj show ?thesis by (simp add: mark_leaf_def leaf_def get_set_field_same)
qed

lemma mark_leaf_unmarked:
  assumes sd: "same_data meta h0 h" and key: "idKey \<notin> set meta"
    and none: "filter (m sw) arrIn = []"
  shows "unmarked m (\<lambda>a. get_field h0 a idKey) arrIn h (mark_leaf h idKey sw acc)"
  unfolding unmarked_def
proof (intro allI impI)
  fix a assume kids: "filter (m (get_field h0 a idKey)) arrIn \<noteq> []"
  have same: "get_field h x idKey = get_field h0 x idKey" for x
    using sd key by (simp add: same_data_def)
  show "get_field (mark_leaf h idKey sw acc) a ''$is_leaf'' = get_field h a ''$is_leaf''"
  proof (cases "List.find (\<lambda>x. strict_eq (get_field h x idKey) sw) acc")
    case None
    then show ?thesis by (simp add: mark_leaf_def)
  next
    case (Some x)
    then have "strict_eq (get_field h x idKey) sw" by (auto simp: find_Some_iff)
    then have "get_field h0 x idKey = sw" using strict_eq_eq same by metis
    with none kids have "a \<noteq> x" by auto
    with Some show ?thesis by (simp add: mark_leaf_def get_set_field_other)
  qed
qed

lemma unmarked_refl: "unmarked m idf arrIn h h"
  by (simp add: unmarked_def)

lemma unmarked_trans:
  "unmarked m idf arrIn h h1 \<Longrightarrow> unmarked m idf arrIn h1 h2 \<Longrightarrow> unmarked m idf arrIn h h2"
  by (simp add: unmarked_def)

section \<open>array2SortAndWeight on a forest\<close>




section \<open>The chain of the weight shares\<close>




section \<open>array2SortByTree on a forest\<close>

lemma sortByTree_node_other:
  "a \<noteq> el \<or> k \<notin> set tree_meta \<or> k = ''$is_leaf'' \<Longrightarrow>
     get_field (sortByTree_node rt level pidx idx el h) a k = get_field h a k"
  unfolding sortByTree_node_def by (auto simp: get_set_field_other tree_meta_def)

lemma leaf_sortByTree_node: "leaf (sortByTree_node rt level pidx idx el h) a = leaf h a"
  by (simp add: leaf_def sortByTree_node_other)

lemma sortByTree_each_leaf_mono:
  assumes call: "\<forall>sw level h acc pidx h' acc'.
      array2SortByTree f rt arrIn idKey parentKey sw level (h, acc) pidx = Some (h', acc') \<longrightarrow>
      (\<forall>a. leaf h a \<longrightarrow> leaf h' a)"
  shows "sortByTree_each f rt arrIn idKey parentKey level pidx els idx (h, acc) = Some (h', acc')
     \<Longrightarrow> (\<forall>a. leaf h a \<longrightarrow> leaf h' a)"
proof (induction els arbitrary: idx h acc)
  case Nil
  then show ?case by simp
next
  case (Cons el els)
  let ?h1 = "sortByTree_node rt level pidx idx el h"
  from Cons.prems obtain h2 acc2 where
    sub: "array2SortByTree f rt arrIn idKey parentKey (get_field ?h1 el idKey) (level + 1)
            (?h1, acc @ [el]) (Some (tree_index rt pidx (idx + 1))) = Some (h2, acc2)"
    and rest: "sortByTree_each f rt arrIn idKey parentKey level pidx els (idx + 1) (h2, acc2)
            = Some (h', acc')"
    unfolding sortByTree_each_Cons by (auto split: option.splits)
  from call sub have "\<forall>a. leaf ?h1 a \<longrightarrow> leaf h2 a" by blast
  with Cons.IH[OF rest] show ?case by (simp add: leaf_sortByTree_node)
qed

lemma array2SortByTree_leaf_mono:
  "array2SortByTree f rt arrIn idKey parentKey sw level (h, acc) pidx = Some (h', acc') \<Longrightarrow>
     (\<forall>a. leaf h a \<longrightarrow> leaf h' a)"
proof (induction f arbitrary: sw level h acc pidx h' acc')
  case 0
  then show ?case by simp
next
  case (Suc f)
  have call: "\<forall>sw level h acc pidx h' acc'.
      array2SortByTree f rt arrIn idKey parentKey sw level (h, acc) pidx = Some (h', acc') \<longrightarrow>
      (\<forall>a. leaf h a \<longrightarrow> leaf h' a)"
    using Suc.IH by blast
  show ?case
  proof (cases "length acc \<le> length arrIn \<and> idKey \<noteq> [] \<and> parentKey \<noteq> []")
    case False
    with Suc.prems show ?thesis unfolding array2SortByTree_Suc by auto
  next
    case True
    show ?thesis
    proof (cases "filter (matches4 rt h parentKey sw) arrIn = []")
      case True
      with Suc.prems \<open>length acc \<le> length arrIn \<and> idKey \<noteq> [] \<and> parentKey \<noteq> []\<close>
      have "h' = mark_leaf h idKey sw acc"
        unfolding array2SortByTree_Suc by auto
      then show ?thesis by (simp add: leaf_mark_leaf)
    next
      case False
      with Suc.prems True have
        "sortByTree_each f rt arrIn idKey parentKey level pidx
           (filter (matches4 rt h parentKey sw) arrIn) 0 (h, acc) = Some (h', acc')"
        unfolding array2SortByTree_Suc by simp
      from sortByTree_each_leaf_mono[where f = f, OF call this] show ?thesis .
    qed
  qed
qed

lemma sortByTree_each_forest:
  assumes m_def: "m = matches4 rt h0 parentKey" and idf_def: "idf = (\<lambda>a. get_field h0 a idKey)"
    and G: "gforest m idf d JNull arrIn"
    and keys: "idKey \<notin> set tree_meta"
    and call0: "\<forall>sw level h acc pidx h' acc'.
      same_data tree_meta h0 h \<longrightarrow> distinct acc \<longrightarrow> set acc \<subseteq> set arrIn \<longrightarrow>
      set acc \<inter> Collect (desc m idf arrIn sw) = {} \<longrightarrow>
      (sw = JNull \<or> (\<exists>c\<in>set arrIn. sw = idf c)) \<longrightarrow>
      array2SortByTree f rt arrIn idKey parentKey sw level (h, acc) pidx = Some (h', acc') \<longrightarrow>
      (\<exists>T. acc' = acc @ T \<and> distinct T \<and> (\<forall>a. a \<in> set T \<longleftrightarrow> desc m idf arrIn sw a) \<and>
           leaves_ok m idf arrIn h' T \<and>
           (\<forall>c\<in>set acc. sw = idf c \<longrightarrow> filter (m sw) arrIn = [] \<longrightarrow> leaf h' c) \<and>
           unmarked m idf arrIn h h')"
    and sw: "sw = JNull \<or> (\<exists>c\<in>set arrIn. sw = idf c)"
  shows "same_data tree_meta h0 h \<Longrightarrow> distinct acc \<Longrightarrow> set acc \<subseteq> set arrIn \<Longrightarrow>
      distinct els \<Longrightarrow> (\<forall>k\<in>set els. k \<in> set arrIn \<and> m sw k) \<Longrightarrow>
      (\<forall>a\<in>set acc. \<forall>k\<in>set els. a \<noteq> k \<and> \<not> desc m idf arrIn (idf k) a) \<Longrightarrow>
      sortByTree_each f rt arrIn idKey parentKey level pidx els idx (h, acc) = Some (h', acc') \<Longrightarrow>
      \<exists>T. acc' = acc @ T \<and> distinct T \<and>
          (\<forall>a. a \<in> set T \<longleftrightarrow> (\<exists>k\<in>set els. a = k \<or> desc m idf arrIn (idf k) a)) \<and>
          leaves_ok m idf arrIn h' T \<and> unmarked m idf arrIn h h'"
proof (induction els arbitrary: idx h acc)
  case Nil
  then show ?case by (simp add: leaves_ok_def unmarked_refl)
next
  case (Cons el els)
  let ?h1 = "sortByTree_node rt level pidx idx el h"
  have el: "el \<in> set arrIn" "m sw el" using Cons.prems(5) by simp_all
  from Cons.prems(7) obtain h2 acc2 where
    sub: "array2SortByTree f rt arrIn idKey parentKey (get_field ?h1 el idKey) (level + 1)
            (?h1, acc @ [el]) (Some (tree_index rt pidx (idx + 1))) = Some (h2, acc2)"
    and rest: "sortByTree_each f rt arrIn idKey parentKey level pidx els (idx + 1) (h2, acc2)
            = Some (h', acc')"
    unfolding sortByTree_each_Cons by (auto split: option.splits)
  have sd1: "same_data tree_meta h0 ?h1"
    using same_data_trans[OF Cons.prems(1) same_data_sortByTree_node] .
  have id_el: "get_field ?h1 el idKey = idf el"
    using sd1 keys by (simp add: same_data_def idf_def)
  have el_acc: "el \<notin> set acc" using Cons.prems(6) by auto
  have d1: "distinct (acc @ [el])" using Cons.prems(2) el_acc by simp
  have s1: "set (acc @ [el]) \<subseteq> set arrIn" using Cons.prems(3) el(1) by simp
  have n1: "set (acc @ [el]) \<inter> Collect (desc m idf arrIn (idf el)) = {}"
    using Cons.prems(6) not_below_itself[OF G el(1)] by auto
  have swc: "idf el = JNull \<or> (\<exists>c\<in>set arrIn. idf el = idf c)" using el(1) by blast
  from call0[rule_format, OF sd1 d1 s1 n1 swc sub[unfolded id_el]] obtain T1 where
    T1: "acc2 = (acc @ [el]) @ T1" "distinct T1"
      "\<forall>a. a \<in> set T1 \<longleftrightarrow> desc m idf arrIn (idf el) a"
    and T1l: "leaves_ok m idf arrIn h2 T1"
    and T1c: "\<forall>c\<in>set (acc @ [el]). idf el = idf c \<longrightarrow> filter (m (idf el)) arrIn = [] \<longrightarrow> leaf h2 c"
    and T1u: "unmarked m idf arrIn ?h1 h2"
    by blast
  from array2SortByTree_frame[OF sub] have sd2: "same_data tree_meta h0 h2"
    using same_data_trans[OF sd1] by blast
  have T1_in: "set T1 \<subseteq> set arrIn" using T1(3) desc_in by blast
  have T1_acc: "set T1 \<inter> set acc = {}" using T1(3) Cons.prems(6) by auto
  have el_T1: "el \<notin> set T1" using T1(3) not_below_itself[OF G el(1)] by simp
  have d2: "distinct acc2" using T1(1,2) d1 T1_acc el_T1 by auto
  have s2: "set acc2 \<subseteq> set arrIn" using T1(1) s1 T1_in by auto
  have dels: "distinct els" "el \<notin> set els" using Cons.prems(4) by simp_all
  have kids: "\<forall>k\<in>set els. k \<in> set arrIn \<and> m sw k" using Cons.prems(5) by simp
  have kids': "\<forall>k\<in>set els. k \<in> set arrIn \<and> m sw k \<and> k \<noteq> el" using kids dels(2) by auto
  have sep: "\<forall>a\<in>set acc2. \<forall>k\<in>set els. a \<noteq> k \<and> \<not> desc m idf arrIn (idf k) a"
  proof (intro ballI)
    fix a k assume a: "a \<in> set acc2" and k: "k \<in> set els"
    have kk: "k \<in> set arrIn" "m sw k" "k \<noteq> el" using kids' k by auto
    from a T1(1) consider "a \<in> set acc" | "a = el" | "a \<in> set T1" by auto
    then show "a \<noteq> k \<and> \<not> desc m idf arrIn (idf k) a"
    proof cases
      case 1
      with Cons.prems(6) k show ?thesis by simp
    next
      case 2
      with kk(3) sibling_not_below[OF G sw el kk(1,2)] show ?thesis by simp
    next
      case 3
      then have below: "desc m idf arrIn (idf el) a" using T1(3) by simp
      have "a \<noteq> k" using below sibling_not_below[OF G sw kk(1,2) el] by auto
      moreover have "\<not> desc m idf arrIn (idf k) a"
        using siblings_disjoint[OF G sw el kk(1,2)] kk(3) below by blast
      ultimately show ?thesis by simp
    qed
  qed
  from Cons.IH[OF sd2 d2 s2 dels(1) kids sep rest] obtain T2 where
    T2: "acc' = acc2 @ T2" "distinct T2"
        "\<forall>a. a \<in> set T2 \<longleftrightarrow> (\<exists>k\<in>set els. a = k \<or> desc m idf arrIn (idf k) a)"
    and T2l: "leaves_ok m idf arrIn h' T2"
    and T2u: "unmarked m idf arrIn h2 h'"
    by blast
  have mono: "\<forall>sw level h acc pidx h' acc'.
      array2SortByTree f rt arrIn idKey parentKey sw level (h, acc) pidx = Some (h', acc') \<longrightarrow>
      (\<forall>a. leaf h a \<longrightarrow> leaf h' a)"
    using array2SortByTree_leaf_mono by blast
  from sortByTree_each_leaf_mono[where f = f, OF mono rest]
  have mono2: "\<forall>a. leaf h2 a \<longrightarrow> leaf h' a" .
  have el_T2: "el \<notin> set T2" using T2(3) sep T1(1) by auto
  have T12: "set T1 \<inter> set T2 = {}" using T2(3) sep T1(1) by auto
  have c1: "acc' = acc @ (el # T1 @ T2)" using T1(1) T2(1) by simp
  have c2: "distinct (el # T1 @ T2)" using el_T1 el_T2 T12 T1(2) T2(2) by simp
  have c3: "\<forall>a. a \<in> set (el # T1 @ T2) \<longleftrightarrow>
      (\<exists>k\<in>set (el # els). a = k \<or> desc m idf arrIn (idf k) a)"
    using T1(3) T2(3) by auto
  have c4: "leaves_ok m idf arrIn h' (el # T1 @ T2)"
    unfolding leaves_ok_def
  proof (intro ballI impI)
    fix a assume a: "a \<in> set (el # T1 @ T2)" and nk: "filter (m (idf a)) arrIn = []"
    from a consider "a = el" | "a \<in> set T1" | "a \<in> set T2" by auto
    then show "leaf h' a"
    proof cases
      case 1
      with T1c nk have "leaf h2 el" by simp
      with mono2 1 show ?thesis by simp
    next
      case 2
      with T1l nk have "leaf h2 a" by (simp add: leaves_ok_def)
      with mono2 show ?thesis by simp
    next
      case 3
      with T2l nk show ?thesis by (simp add: leaves_ok_def)
    qed
  qed
  have "unmarked m idf arrIn h ?h1"
    by (simp add: unmarked_def sortByTree_node_other)
  then have c7: "unmarked m idf arrIn h h'"
    using unmarked_trans T1u T2u by blast
  from c1 c2 c3 c4 c7 show ?case by blast
qed

lemma array2SortByTree_forest:
  assumes m_def: "m = matches4 rt h0 parentKey" and idf_def: "idf = (\<lambda>a. get_field h0 a idKey)"
    and G: "gforest m idf d JNull arrIn"
    and U: "unique_ids h0 idKey arrIn"
    and objs: "\<forall>a\<in>set arrIn. is_obj h0 a"
    and keys: "idKey \<notin> set tree_meta" "parentKey \<notin> set tree_meta"
    and ne: "idKey \<noteq> []" "parentKey \<noteq> []"
    and prim: "\<forall>a\<in>set arrIn. \<not> is_ref (get_field h0 a parentKey)"
    and dist: "distinct arrIn"
  shows "same_data tree_meta h0 h \<Longrightarrow> distinct acc \<Longrightarrow> set acc \<subseteq> set arrIn \<Longrightarrow>
      set acc \<inter> Collect (desc m idf arrIn sw) = {} \<Longrightarrow>
      sw = JNull \<or> (\<exists>c\<in>set arrIn. sw = idf c) \<Longrightarrow>
      array2SortByTree f rt arrIn idKey parentKey sw level (h, acc) pidx = Some (h', acc') \<Longrightarrow>
      \<exists>T. acc' = acc @ T \<and> distinct T \<and> (\<forall>a. a \<in> set T \<longleftrightarrow> desc m idf arrIn sw a) \<and>
           leaves_ok m idf arrIn h' T \<and>
           (\<forall>c\<in>set acc. sw = idf c \<longrightarrow> filter (m sw) arrIn = [] \<longrightarrow> leaf h' c) \<and>
           unmarked m idf arrIn h h'"
proof (induction f arbitrary: sw level h acc pidx h' acc')
  case 0
  then show ?case by simp
next
  case (Suc f)
  have len: "length acc \<le> length arrIn"
    using distinct_subset_length[OF Suc.prems(2,3)] .
  have kids_eq: "filter (matches4 rt h parentKey sw) arrIn = filter (m sw) arrIn"
    unfolding m_def
    by (rule filter_cong[OF refl]) (use matches4_same_data[OF Suc.prems(1) keys(2)] prim in blast)
  show ?case
  proof (cases "filter (m sw) arrIn = []")
    case True
    with Suc.prems(6) len ne have res: "h' = mark_leaf h idKey sw acc" "acc' = acc"
      unfolding array2SortByTree_Suc kids_eq by auto
    have none: "\<forall>a. \<not> desc m idf arrIn sw a"
    proof (intro allI notI)
      fix a assume "desc m idf arrIn sw a"
      then obtain k where "k \<in> set arrIn" "m sw k"
        using desc_unfold[of m idf arrIn sw a] by blast
      then have "k \<in> set (filter (m sw) arrIn)" by simp
      with True show False by simp
    qed
    have cl: "\<forall>c\<in>set acc. sw = idf c \<longrightarrow> filter (m sw) arrIn = [] \<longrightarrow> leaf h' c"
    proof (intro ballI impI)
      fix c assume c: "c \<in> set acc" and sw: "sw = idf c"
      have "is_obj h c" using objs c Suc.prems(1,3) by (auto simp: same_data_def)
      from mark_leaf_finds[OF U Suc.prems(1) keys(1) Suc.prems(3) c this]
      show "leaf h' c" unfolding res sw idf_def .
    qed
    have um: "unmarked m idf arrIn h h'"
      unfolding res idf_def
      by (rule mark_leaf_unmarked[where m = m and sw = sw, OF Suc.prems(1) keys(1) True])
    have "acc' = acc @ [] \<and> distinct ([]::addr list) \<and>
        (\<forall>a. a \<in> set ([]::addr list) \<longleftrightarrow> desc m idf arrIn sw a) \<and>
        leaves_ok m idf arrIn h' [] \<and>
        (\<forall>c\<in>set acc. sw = idf c \<longrightarrow> filter (m sw) arrIn = [] \<longrightarrow> leaf h' c) \<and>
        unmarked m idf arrIn h h'"
      using res(2) none cl um by (simp add: leaves_ok_def)
    then show ?thesis by blast
  next
    case False
    with Suc.prems(6) len ne have run:
      "sortByTree_each f rt arrIn idKey parentKey level pidx (filter (m sw) arrIn) 0 (h, acc)
         = Some (h', acc')"
      unfolding array2SortByTree_Suc kids_eq by simp
    have call: "\<forall>sw level h acc pidx h' acc'.
      same_data tree_meta h0 h \<longrightarrow> distinct acc \<longrightarrow> set acc \<subseteq> set arrIn \<longrightarrow>
      set acc \<inter> Collect (desc m idf arrIn sw) = {} \<longrightarrow>
      (sw = JNull \<or> (\<exists>c\<in>set arrIn. sw = idf c)) \<longrightarrow>
      array2SortByTree f rt arrIn idKey parentKey sw level (h, acc) pidx = Some (h', acc') \<longrightarrow>
      (\<exists>T. acc' = acc @ T \<and> distinct T \<and> (\<forall>a. a \<in> set T \<longleftrightarrow> desc m idf arrIn sw a) \<and>
           leaves_ok m idf arrIn h' T \<and>
           (\<forall>c\<in>set acc. sw = idf c \<longrightarrow> filter (m sw) arrIn = [] \<longrightarrow> leaf h' c) \<and>
           unmarked m idf arrIn h h')"
      by (intro allI impI) (rule Suc.IH)
    have 1: "distinct (filter (m sw) arrIn)" using dist by simp
    have 2: "\<forall>k\<in>set (filter (m sw) arrIn). k \<in> set arrIn \<and> m sw k" by simp
    have 3: "\<forall>a\<in>set acc. \<forall>k\<in>set (filter (m sw) arrIn).
               a \<noteq> k \<and> \<not> desc m idf arrIn (idf k) a"
    proof (intro ballI)
      fix a k assume a: "a \<in> set acc" and k: "k \<in> set (filter (m sw) arrIn)"
      then have kk: "k \<in> set arrIn" "m sw k" by simp_all
      have "\<not> desc m idf arrIn sw a" using Suc.prems(4) a by auto
      moreover have "desc m idf arrIn sw k" using kk by (rule desc_child)
      ultimately show "a \<noteq> k \<and> \<not> desc m idf arrIn (idf k) a"
        using desc_first[where m = m and idf = idf and sw = sw, OF kk] by blast
    qed
    from sortByTree_each_forest[where f = f, OF m_def idf_def G keys(1) call
        Suc.prems(5) Suc.prems(1,2,3) 1 2 3 run]
    obtain T where T: "acc' = acc @ T" "distinct T"
      "\<forall>a. a \<in> set T \<longleftrightarrow> (\<exists>k\<in>set (filter (m sw) arrIn). a = k \<or> desc m idf arrIn (idf k) a)"
      and Tl: "leaves_ok m idf arrIn h' T" and Tu: "unmarked m idf arrIn h h'"
      by blast
    have mem: "\<forall>a. a \<in> set T \<longleftrightarrow> desc m idf arrIn sw a"
    proof
      fix a
      show "a \<in> set T \<longleftrightarrow> desc m idf arrIn sw a"
        unfolding desc_unfold[of m idf arrIn sw a] using T(3) desc_in[of m idf arrIn _ a]
        by auto
    qed
    have "\<forall>c\<in>set acc. sw = idf c \<longrightarrow> filter (m sw) arrIn = [] \<longrightarrow> leaf h' c"
      using False by blast
    with T(1,2) mem Tl Tu show ?thesis by blast
  qed
qed

text \<open>
  C1, as the code has it. The input \<^verbatim>\<open>[{id: 1, parent_id: 7}]\<close> is returned as the empty
  list: a record whose parent value matches neither the start value nor an identifier is
  never reached.
\<close>

theorem C1_orphan_is_dropped:
  "mset (snd (the (array2SortByTree 3 rt_sample [0] ''id'' ''parent_id'' JNull 1
                     (h_orphan, []) None))) \<noteq> mset [0]"
  by code_simp

text \<open>
  C1, amended. Let the input hold each record once, with unique identifiers, acyclic
  parent references (a depth \<open>d\<close> that grows from parent to child), primitive parent
  values, and every record either a top-level record or the child of a record of the
  input, never both; let the two key names be non-empty and none of the fields the
  flattener writes. Then \<^verbatim>\<open>array2SortByTree\<close>, called with \<^verbatim>\<open>startWith = null\<close> and an
  empty accumulator, returns a permutation of the input list, and no field of any record
  other than \<^verbatim>\<open>$level\<close>, \<^verbatim>\<open>$index\<close>, \<^verbatim>\<open>$tree_index\<close> and \<^verbatim>\<open>$is_leaf\<close> has changed.
\<close>

theorem C1_forest_is_permuted:
  assumes R: "records_ok h arrIn"
    and ne: "idKey \<noteq> []" "parentKey \<noteq> []"
    and keys: "idKey \<notin> set tree_meta" "parentKey \<notin> set tree_meta"
    and U: "unique_ids h idKey arrIn"
    and A: "acyclic_parents h idKey parentKey d arrIn"
    and P: "plain_parents rt h idKey parentKey arrIn"
    and T: "all_attached rt h idKey parentKey arrIn"
  shows "\<exists>h' out.
      array2SortByTree (length arrIn + 2) rt arrIn idKey parentKey JNull 1 (h, []) None
        = Some (h', out) \<and>
      mset out = mset arrIn \<and>
      (\<forall>a k. k \<notin> set tree_meta \<longrightarrow> get_field h' a k = get_field h a k)"
proof -
  have G: "gforest (matches4 rt h parentKey) (\<lambda>a. get_field h a idKey) d JNull arrIn"
    using gforest_matches4[OF U A P] .
  have dist: "distinct arrIn" using R by (simp add: records_ok_def)
  have prim: "\<forall>a\<in>set arrIn. \<not> is_ref (get_field h a parentKey)"
    using P by (simp add: plain_parents_def)
  have "length arrIn + 1 \<le> (length arrIn + 1) + length (snd (h, []::addr list))" by simp
  from array2SortByTree_total[OF this] obtain h' out where
    run: "array2SortByTree (Suc (length arrIn + 1)) rt arrIn idKey parentKey JNull 1 (h, [])
            None = Some (h', out)"
    by (metis surj_pair)
  have objs: "\<forall>a\<in>set arrIn. is_obj h a" using R by (simp add: records_ok_def)
  from array2SortByTree_forest[OF refl refl G U objs keys ne prim dist same_data_refl _ _ _ _ run]
  obtain T' where T': "out = [] @ T'" "distinct T'"
    "\<forall>a. a \<in> set T' \<longleftrightarrow>
       desc (matches4 rt h parentKey) (\<lambda>a. get_field h a idKey) arrIn JNull a"
    by auto
  have "set out = set arrIn"
    using T'(1,3) attached_below_root[OF G T] desc_in by auto
  moreover have "distinct out" using T'(1,2) by simp
  ultimately have "mset out = mset arrIn"
    using dist by (simp add: set_eq_iff_mset_eq_distinct)
  moreover from array2SortByTree_frame[OF run]
  have "\<forall>a k. k \<notin> set tree_meta \<longrightarrow> get_field h' a k = get_field h a k"
    by (simp add: same_data_def)
  moreover have "Suc (length arrIn + 1) = length arrIn + 2" by simp
  ultimately show ?thesis using run by metis
qed

theorem C1_forest_is_permuted_witness:
  "records_ok h_forest [0, 1, 2] \<and>
   unique_ids h_forest ''id'' [0, 1, 2] \<and>
   acyclic_parents h_forest ''id'' ''parent_id'' d_forest [0, 1, 2] \<and>
   plain_parents rt_sample h_forest ''id'' ''parent_id'' [0, 1, 2] \<and>
   all_attached rt_sample h_forest ''id'' ''parent_id'' [0, 1, 2] \<and>
   mset (snd (the (array2SortByTree 5 rt_sample [0, 1, 2] ''id'' ''parent_id'' JNull 1
                     (h_forest, []) None))) = mset [0, 1, 2]"
proof -
  have R: "records_ok h_forest [0, 1, 2]" by code_simp
  have U: "unique_ids h_forest ''id'' [0, 1, 2]" by code_simp
  have A: "acyclic_parents h_forest ''id'' ''parent_id'' d_forest [0, 1, 2]" by code_simp
  have P: "plain_parents rt_sample h_forest ''id'' ''parent_id'' [0, 1, 2]" by code_simp
  have T: "all_attached rt_sample h_forest ''id'' ''parent_id'' [0, 1, 2]" by code_simp
  have k: "''id'' \<noteq> []" "''parent_id'' \<noteq> []"
    "''id'' \<notin> set tree_meta" "''parent_id'' \<notin> set tree_meta"
    by (simp_all add: tree_meta_def)
  from C1_forest_is_permuted[OF R k U A P T] obtain h' out where
    run: "array2SortByTree (length [0::nat, 1, 2] + 2) rt_sample [0, 1, 2] ''id'' ''parent_id''
       JNull 1 (h_forest, []) None = Some (h', out)" and out: "mset out = mset [0, 1, 2]"
    by blast
  have five: "length [0::nat, 1, 2] + 2 = 5" by simp
  have "snd (the (array2SortByTree 5 rt_sample [0, 1, 2] ''id'' ''parent_id'' JNull 1
                     (h_forest, []) None)) = out"
    unfolding run[unfolded five] by (simp only: option.sel snd_conv)
  with out R U A P T show ?thesis by (simp only: simp_thms)
qed

section \<open>array2Tree: what a call keeps\<close>

lemma keeps_refl: "keeps h h"
  by (simp add: keeps_def)

lemma keeps_trans: "keeps h0 h1 \<Longrightarrow> keeps h1 h2 \<Longrightarrow> keeps h0 h2"
  unfolding keeps_def by (intro conjI allI impI; force)

lemma nth_set_field_Arr: "h ! c = Arr xs \<Longrightarrow> set_field h a k v ! c = Arr xs"
  by (cases "a = c") (auto simp: set_field_def split: cell.splits)

lemma keeps_set_field: "k \<in> set build_meta \<Longrightarrow> k \<noteq> ''$is_leaf'' \<Longrightarrow> keeps h (set_field h a k v)"
  unfolding keeps_def
  by (auto simp: nth_set_field_Arr get_set_field leaf_def)

lemma keeps_mark_leaf: "keeps h (mark_leaf h idKey sw xs)"
proof (cases "List.find (\<lambda>x. strict_eq (get_field h x idKey) sw) xs")
  case None
  then show ?thesis by (simp add: mark_leaf_def keeps_refl)
next
  case (Some x)
  have "keeps h (set_field h x ''$is_leaf'' (num_of_nat 1))"
    unfolding keeps_def
    by (auto simp: nth_set_field_Arr get_set_field leaf_def build_meta_def)
  with Some show ?thesis by (simp add: mark_leaf_def)
qed

lemma is_obj_append_Arr [simp]: "is_obj (h @ [Arr xs]) a = is_obj h a"
  by (auto simp: is_obj_def nth_append)

lemma get_field_append_Arr [simp]: "get_field (h @ [Arr xs]) a k = get_field h a k"
  by (auto simp: get_field_def nth_append)

lemma leaf_append_Arr [simp]: "leaf (h @ [Arr xs]) a = leaf h a"
  by (simp add: leaf_def)

lemma keeps_alloc: "keeps h (h @ [Arr xs])"
  unfolding keeps_def by (auto simp: nth_append)

lemma tree_each_ConsE:
  assumes "tree_each f rt arrIn idKey parentKey level (el # els) h = Some h'"
  obtains sub h2 where
    "array2Tree f rt arrIn idKey parentKey
       (get_field (set_field h el ''$level'' (num_of_nat level)) el idKey) (level + 1)
       (set_field h el ''$level'' (num_of_nat level)) = Some (sub, h2)"
    "tree_each f rt arrIn idKey parentKey level els
       (if truthy sub then set_field h2 el ''$children'' sub
        else set_field (h2 @ [Arr []]) el ''$children'' (JRef (length h2))) = Some h'"
  using assms
  by (auto simp: alloc_def Let_def split: option.splits if_splits)

lemma keeps_child:
  "keeps h2 (if truthy sub then set_field h2 el ''$children'' sub
             else set_field (h2 @ [Arr []]) el ''$children'' (JRef (length h2)))"
proof (cases "truthy sub")
  case True
  then show ?thesis by (simp add: keeps_set_field build_meta_def)
next
  case False
  have "keeps h2 (set_field (h2 @ [Arr []]) el ''$children'' (JRef (length h2)))"
    by (rule keeps_trans[OF keeps_alloc keeps_set_field]) (simp_all add: build_meta_def)
  with False show ?thesis by simp
qed

lemma tree_each_keeps:
  assumes call: "\<forall>sw level h v h'.
      array2Tree f rt arrIn idKey parentKey sw level h = Some (v, h') \<longrightarrow> keeps h h'"
  shows "tree_each f rt arrIn idKey parentKey level els h = Some h' \<Longrightarrow> keeps h h'"
proof (induction els arbitrary: h)
  case Nil
  then show ?case by (simp add: keeps_refl)
next
  case (Cons el els)
  from Cons.prems obtain sub h2 where
    sub: "array2Tree f rt arrIn idKey parentKey
       (get_field (set_field h el ''$level'' (num_of_nat level)) el idKey) (level + 1)
       (set_field h el ''$level'' (num_of_nat level)) = Some (sub, h2)"
    and rest: "tree_each f rt arrIn idKey parentKey level els
       (if truthy sub then set_field h2 el ''$children'' sub
        else set_field (h2 @ [Arr []]) el ''$children'' (JRef (length h2))) = Some h'"
    by (rule tree_each_ConsE)
  have 1: "keeps h (set_field h el ''$level'' (num_of_nat level))"
    by (rule keeps_set_field) (simp_all add: build_meta_def)
  have 2: "keeps (set_field h el ''$level'' (num_of_nat level)) h2" using call sub by blast
  from keeps_trans[OF keeps_trans[OF keeps_trans[OF 1 2] keeps_child] Cons.IH[OF rest]]
  show ?case .
qed

lemma array2Tree_Suc:
  "array2Tree (Suc f) rt arrIn idKey parentKey sw level h =
     (if filter (matches4 rt h parentKey sw) arrIn \<noteq> [] then
        (case tree_each f rt arrIn idKey parentKey level (filter (matches4 rt h parentKey sw) arrIn)
                (h @ [Arr (map JRef (filter (matches4 rt h parentKey sw) arrIn))]) of
           None \<Rightarrow> None
         | Some h' \<Rightarrow> Some (JRef (length h), h'))
      else Some (JUndefined, mark_leaf h idKey sw arrIn))"
  by (simp add: alloc_def Let_def)

lemma array2Tree_keeps:
  "array2Tree f rt arrIn idKey parentKey sw level h = Some (v, h') \<Longrightarrow> keeps h h'"
proof (induction f arbitrary: sw level h v h')
  case 0
  then show ?case by simp
next
  case (Suc f)
  have call: "\<forall>sw level h v h'.
      array2Tree f rt arrIn idKey parentKey sw level h = Some (v, h') \<longrightarrow> keeps h h'"
    using Suc.IH by blast
  show ?case
  proof (cases "filter (matches4 rt h parentKey sw) arrIn = []")
    case True
    with Suc.prems have "h' = mark_leaf h idKey sw arrIn"
      unfolding array2Tree_Suc by simp
    then show ?thesis by (simp add: keeps_mark_leaf)
  next
    case False
    with Suc.prems have
      "tree_each f rt arrIn idKey parentKey level (filter (matches4 rt h parentKey sw) arrIn)
         (h @ [Arr (map JRef (filter (matches4 rt h parentKey sw) arrIn))]) = Some h'"
      unfolding array2Tree_Suc by (auto split: option.splits)
    from tree_each_keeps[where f = f, OF call this] keeps_alloc show ?thesis
      by (rule keeps_trans[rotated])
  qed
qed

text \<open>The result of a call: \<^verbatim>\<open>undefined\<close> and at most a leaf mark when no record matches,
  a new array of the matching records otherwise.\<close>

lemma array2Tree_result:
  assumes "array2Tree f rt arrIn idKey parentKey sw level h = Some (v, h')"
  shows "(filter (matches4 rt h parentKey sw) arrIn = [] \<longrightarrow>
            v = JUndefined \<and> h' = mark_leaf h idKey sw arrIn) \<and>
         (filter (matches4 rt h parentKey sw) arrIn \<noteq> [] \<longrightarrow>
            v = JRef (length h) \<and> length h < length h' \<and>
            h' ! length h = Arr (map JRef (filter (matches4 rt h parentKey sw) arrIn)))"
proof (cases f)
  case 0
  with assms show ?thesis by simp
next
  case (Suc g)
  show ?thesis
  proof (cases "filter (matches4 rt h parentKey sw) arrIn = []")
    case True
    with assms[unfolded Suc array2Tree_Suc] show ?thesis by simp
  next
    case False
    let ?h1 = "h @ [Arr (map JRef (filter (matches4 rt h parentKey sw) arrIn))]"
    from False assms[unfolded Suc array2Tree_Suc] have
      run: "tree_each g rt arrIn idKey parentKey level (filter (matches4 rt h parentKey sw) arrIn)
         ?h1 = Some h'" and v: "v = JRef (length h)"
      by (auto split: option.splits)
    have call: "\<forall>sw level h v h'.
      array2Tree g rt arrIn idKey parentKey sw level h = Some (v, h') \<longrightarrow> keeps h h'"
      using array2Tree_keeps by blast
    from tree_each_keeps[where f = g, OF call run] have k: "keeps ?h1 h'" .
    have "length h < length ?h1" "?h1 ! length h = Arr (map JRef (filter (matches4 rt h parentKey sw) arrIn))"
      by simp_all
    with k have "length h < length h'"
      "h' ! length h = Arr (map JRef (filter (matches4 rt h parentKey sw) arrIn))"
      unfolding keeps_def by (force, blast)
    with v False show ?thesis by simp
  qed
qed

section \<open>array2Tree: the nodes of the tree\<close>

lemma node_ok_iff:
  "node_ok marks m idf arrIn h a \<longleftrightarrow>
     (\<exists>c. get_field h a ''$children'' = JRef c \<and> c < length h \<and>
          h ! c = Arr (map JRef (filter (m (idf a)) arrIn))) \<and>
     (marks \<longrightarrow> filter (m (idf a)) arrIn = [] \<longrightarrow> leaf h a)"
  unfolding node_ok_def by (cases "get_field h a ''$children''") auto

lemma node_ok_keeps:
  assumes k: "keeps h h'"
    and same: "get_field h' a ''$children'' = get_field h a ''$children''"
    and ok: "node_ok marks m idf arrIn h a"
  shows "node_ok marks m idf arrIn h' a"
proof -
  from ok obtain c where c: "get_field h a ''$children'' = JRef c" "c < length h"
      "h ! c = Arr (map JRef (filter (m (idf a)) arrIn))"
    and l: "marks \<longrightarrow> filter (m (idf a)) arrIn = [] \<longrightarrow> leaf h a"
    unfolding node_ok_iff by blast
  from k c(2,3) have "c < length h'" "h' ! c = Arr (map JRef (filter (m (idf a)) arrIn))"
    unfolding keeps_def by (force, blast)
  moreover from k l have "marks \<longrightarrow> filter (m (idf a)) arrIn = [] \<longrightarrow> leaf h' a"
    unfolding keeps_def by blast
  ultimately show ?thesis unfolding node_ok_iff using c(1) same by simp
qed

lemma kids_keeps:
  assumes k: "keeps h0 h" and key: "parentKey \<notin> set build_meta"
    and prim: "\<forall>a\<in>set arrIn. \<not> is_ref (get_field h0 a parentKey)"
  shows "filter (matches4 rt h parentKey sw) arrIn = filter (matches4 rt h0 parentKey sw) arrIn"
proof (rule filter_cong[OF refl])
  fix a assume a: "a \<in> set arrIn"
  have same: "get_field h a parentKey = get_field h0 a parentKey"
    using k key unfolding keeps_def by blast
  from prim a have "\<not> is_ref (get_field h0 a parentKey)" by blast
  from loose_eq_empty_prim[OF this, of rt h h0] same
  show "matches4 rt h parentKey sw a = matches4 rt h0 parentKey sw a"
    by (simp add: matches4_def)
qed

lemma mark_leaf_finds_all:
  assumes U: "unique_ids h0 idKey arrIn"
    and same: "\<forall>x. get_field h x idKey = get_field h0 x idKey"
    and cin: "c \<in> set arrIn" and obj: "is_obj h c"
  shows "leaf (mark_leaf h idKey (get_field h0 c idKey) arrIn) c"
proof -
  let ?P = "\<lambda>x. strict_eq (get_field h x idKey) (get_field h0 c idKey)"
  have "?P c" using U cin by (simp add: same unique_ids_def)
  with cin have "List.find ?P arrIn \<noteq> None" by (auto simp: find_None_iff)
  then obtain x where x: "List.find ?P arrIn = Some x" by blast
  then have "?P x" "x \<in> set arrIn" by (auto simp: find_Some_iff)
  then have "strict_eq (get_field h0 x idKey) (get_field h0 c idKey)"
    by (simp add: same)
  with U cin \<open>x \<in> set arrIn\<close> have "x = c" by (simp add: unique_ids_def)
  with x obj show ?thesis by (simp add: mark_leaf_def leaf_def get_set_field_same)
qed

lemma mark_leaf_unmarked_all:
  assumes same: "\<forall>x. get_field h x idKey = get_field h0 x idKey"
    and none: "filter (m sw) arrIn = []"
  shows "unmarked m (\<lambda>a. get_field h0 a idKey) arrIn h (mark_leaf h idKey sw acc)"
  unfolding unmarked_def
proof (intro allI impI)
  fix a assume kids: "filter (m (get_field h0 a idKey)) arrIn \<noteq> []"
  show "get_field (mark_leaf h idKey sw acc) a ''$is_leaf'' = get_field h a ''$is_leaf''"
  proof (cases "List.find (\<lambda>x. strict_eq (get_field h x idKey) sw) acc")
    case None
    then show ?thesis by (simp add: mark_leaf_def)
  next
    case (Some x)
    then have "strict_eq (get_field h x idKey) sw" by (auto simp: find_Some_iff)
    then have "get_field h0 x idKey = sw" using strict_eq_eq same by metis
    with none kids have "a \<noteq> x" by auto
    with Some show ?thesis by (simp add: mark_leaf_def get_set_field_other)
  qed
qed

lemma unmarked_same:
  "\<forall>a. get_field h' a ''$is_leaf'' = get_field h a ''$is_leaf'' \<Longrightarrow> unmarked m idf arrIn h h'"
  by (simp add: unmarked_def)

lemma tree_each_nodes:
  assumes m_def: "m = matches4 rt h0 parentKey" and idf_def: "idf = (\<lambda>a. get_field h0 a idKey)"
    and objs: "\<forall>a\<in>set arrIn. is_obj h0 a"
    and keys: "idKey \<notin> set build_meta" "parentKey \<notin> set build_meta"
    and prim: "\<forall>a\<in>set arrIn. \<not> is_ref (get_field h0 a parentKey)"
    and call: "\<forall>sw level h v h'. keeps h0 h \<longrightarrow>
      array2Tree f rt arrIn idKey parentKey sw level h = Some (v, h') \<longrightarrow>
      (\<forall>a. node_ok marks m idf arrIn h a \<longrightarrow> node_ok marks m idf arrIn h' a) \<and>
      (\<forall>a. desc m idf arrIn sw a \<longrightarrow> node_ok marks m idf arrIn h' a) \<and>
      (\<forall>c\<in>set arrIn. marks \<longrightarrow> sw = idf c \<longrightarrow> filter (m sw) arrIn = [] \<longrightarrow> leaf h' c) \<and>
      unmarked m idf arrIn h h'"
  shows "keeps h0 h \<Longrightarrow> set els \<subseteq> set arrIn \<Longrightarrow>
      tree_each f rt arrIn idKey parentKey level els h = Some h' \<Longrightarrow>
      (\<forall>a. node_ok marks m idf arrIn h a \<longrightarrow> node_ok marks m idf arrIn h' a) \<and>
      (\<forall>a. (\<exists>k\<in>set els. a = k \<or> desc m idf arrIn (idf k) a) \<longrightarrow> node_ok marks m idf arrIn h' a) \<and>
      unmarked m idf arrIn h h'"
proof (induction els arbitrary: h)
  case Nil
  then show ?case by (simp add: unmarked_refl)
next
  case (Cons el els)
  let ?h1 = "set_field h el ''$level'' (num_of_nat level)"
  from Cons.prems(3) obtain sub h2 where
    sub: "array2Tree f rt arrIn idKey parentKey (get_field ?h1 el idKey) (level + 1) ?h1
            = Some (sub, h2)"
    and rest: "tree_each f rt arrIn idKey parentKey level els
       (if truthy sub then set_field h2 el ''$children'' sub
        else set_field (h2 @ [Arr []]) el ''$children'' (JRef (length h2))) = Some h'"
    by (rule tree_each_ConsE)
  let ?hc = "if truthy sub then set_field h2 el ''$children'' sub
        else set_field (h2 @ [Arr []]) el ''$children'' (JRef (length h2))"
  have el: "el \<in> set arrIn" and els: "set els \<subseteq> set arrIn" using Cons.prems(2) by simp_all
  have k1: "keeps h ?h1" by (rule keeps_set_field) (simp_all add: build_meta_def)
  have k01: "keeps h0 ?h1" using keeps_trans[OF Cons.prems(1) k1] .
  have id_el: "get_field ?h1 el idKey = idf el"
    using k01 keys(1) unfolding keeps_def idf_def by blast
  have k12: "keeps ?h1 h2" using array2Tree_keeps[OF sub] .
  have k02: "keeps h0 h2" using keeps_trans[OF k01 k12] .
  have k2c: "keeps h2 ?hc" by (rule keeps_child)
  have k0c: "keeps h0 ?hc" using keeps_trans[OF k02 k2c] .
  from call[rule_format, OF k01 sub[unfolded id_el]] have
    N1: "\<forall>a. node_ok marks m idf arrIn ?h1 a \<longrightarrow> node_ok marks m idf arrIn h2 a"
    and D1: "\<forall>a. desc m idf arrIn (idf el) a \<longrightarrow> node_ok marks m idf arrIn h2 a"
    and L1: "\<forall>c\<in>set arrIn. marks \<longrightarrow> idf el = idf c \<longrightarrow> filter (m (idf el)) arrIn = []
               \<longrightarrow> leaf h2 c"
    and M1: "unmarked m idf arrIn ?h1 h2"
    by blast+
  have kids_eq: "filter (matches4 rt ?h1 parentKey (idf el)) arrIn = filter (m (idf el)) arrIn"
    unfolding m_def by (rule kids_keeps[OF k01 keys(2) prim])
  note res = array2Tree_result[OF sub[unfolded id_el], unfolded kids_eq]
  have obj2: "is_obj h2 el" using k02 objs el unfolding keeps_def by blast
  have node_el: "node_ok marks m idf arrIn ?hc el"
  proof (cases "filter (m (idf el)) arrIn = []")
    case True
    with res have s: "sub = JUndefined" by blast
    from L1 el True have l2: "marks \<longrightarrow> leaf h2 el" by blast
    have hc: "?hc = set_field (h2 @ [Arr []]) el ''$children'' (JRef (length h2))"
      using s by simp
    have 1: "get_field ?hc el ''$children'' = JRef (length h2)"
      unfolding hc using obj2 by (simp add: get_set_field_same)
    have 2: "length h2 < length ?hc" unfolding hc by simp
    have 3: "?hc ! length h2 = Arr []"
      unfolding hc by (rule nth_set_field_Arr) simp
    have 4: "marks \<longrightarrow> leaf ?hc el" using k2c l2 unfolding keeps_def by blast
    show ?thesis unfolding node_ok_iff using 1 2 3 4 True by simp
  next
    case False
    with res have s: "sub = JRef (length ?h1)" and len: "length ?h1 < length h2"
      and arr: "h2 ! length ?h1 = Arr (map JRef (filter (m (idf el)) arrIn))"
      by blast+
    have hc: "?hc = set_field h2 el ''$children'' (JRef (length ?h1))"
      using s by simp
    have 1: "get_field ?hc el ''$children'' = JRef (length ?h1)"
      unfolding hc using obj2 by (simp add: get_set_field_same)
    have 2: "length ?h1 < length ?hc" unfolding hc using len by simp
    have 3: "?hc ! length ?h1 = Arr (map JRef (filter (m (idf el)) arrIn))"
      unfolding hc by (rule nth_set_field_Arr) (rule arr)
    show ?thesis unfolding node_ok_iff using 1 2 3 False by simp
  qed
  have pres_c: "\<forall>a. node_ok marks m idf arrIn h2 a \<longrightarrow> node_ok marks m idf arrIn ?hc a"
  proof (intro allI impI)
    fix a assume ok: "node_ok marks m idf arrIn h2 a"
    show "node_ok marks m idf arrIn ?hc a"
    proof (cases "a = el")
      case True
      with node_el show ?thesis by simp
    next
      case False
      then have "get_field ?hc a ''$children'' = get_field h2 a ''$children''"
        by (simp add: get_set_field_other)
      from node_ok_keeps[OF k2c this ok] show ?thesis .
    qed
  qed
  have pres_1: "\<forall>a. node_ok marks m idf arrIn h a \<longrightarrow> node_ok marks m idf arrIn ?h1 a"
  proof (intro allI impI)
    fix a assume ok: "node_ok marks m idf arrIn h a"
    have "get_field ?h1 a ''$children'' = get_field h a ''$children''"
      by (simp add: get_set_field_other)
    from node_ok_keeps[OF k1 this ok] show "node_ok marks m idf arrIn ?h1 a" .
  qed
  from Cons.IH[OF k0c els rest] have
    N2: "\<forall>a. node_ok marks m idf arrIn ?hc a \<longrightarrow> node_ok marks m idf arrIn h' a"
    and D2: "\<forall>a. (\<exists>k\<in>set els. a = k \<or> desc m idf arrIn (idf k) a) \<longrightarrow> node_ok marks m idf arrIn h' a"
    and M2: "unmarked m idf arrIn ?hc h'"
    by blast+
  have c1: "\<forall>a. node_ok marks m idf arrIn h a \<longrightarrow> node_ok marks m idf arrIn h' a"
    using pres_1 N1 pres_c N2 by blast
  have c2: "\<forall>a. (\<exists>k\<in>set (el # els). a = k \<or> desc m idf arrIn (idf k) a)
      \<longrightarrow> node_ok marks m idf arrIn h' a"
  proof (intro allI impI)
    fix a assume "\<exists>k\<in>set (el # els). a = k \<or> desc m idf arrIn (idf k) a"
    then consider "a = el" | "desc m idf arrIn (idf el) a"
      | "\<exists>k\<in>set els. a = k \<or> desc m idf arrIn (idf k) a" by auto
    then show "node_ok marks m idf arrIn h' a"
    proof cases
      case 1
      with node_el N2 show ?thesis by blast
    next
      case 2
      with D1 pres_c N2 show ?thesis by blast
    next
      case 3
      with D2 show ?thesis by blast
    qed
  qed
  have u1: "unmarked m idf arrIn h ?h1"
    by (rule unmarked_same) (simp add: get_set_field_other)
  have u2: "unmarked m idf arrIn h2 ?hc"
    by (rule unmarked_same) (simp add: get_set_field_other)
  have c3: "unmarked m idf arrIn h h'"
    using unmarked_trans[OF unmarked_trans[OF unmarked_trans[OF u1 M1] u2] M2] .
  from c1 c2 c3 show ?case by blast
qed

lemma array2Tree_nodes:
  assumes m_def: "m = matches4 rt h0 parentKey" and idf_def: "idf = (\<lambda>a. get_field h0 a idKey)"
    and U: "marks \<longrightarrow> unique_ids h0 idKey arrIn"
    and objs: "\<forall>a\<in>set arrIn. is_obj h0 a"
    and keys: "idKey \<notin> set build_meta" "parentKey \<notin> set build_meta"
    and prim: "\<forall>a\<in>set arrIn. \<not> is_ref (get_field h0 a parentKey)"
  shows "keeps h0 h \<Longrightarrow> array2Tree f rt arrIn idKey parentKey sw level h = Some (v, h') \<Longrightarrow>
      (\<forall>a. node_ok marks m idf arrIn h a \<longrightarrow> node_ok marks m idf arrIn h' a) \<and>
      (\<forall>a. desc m idf arrIn sw a \<longrightarrow> node_ok marks m idf arrIn h' a) \<and>
      (\<forall>c\<in>set arrIn. marks \<longrightarrow> sw = idf c \<longrightarrow> filter (m sw) arrIn = [] \<longrightarrow> leaf h' c) \<and>
      unmarked m idf arrIn h h'"
proof (induction f arbitrary: sw level h v h')
  case 0
  then show ?case by simp
next
  case (Suc f)
  have kids_eq: "filter (matches4 rt h parentKey sw) arrIn = filter (m sw) arrIn"
    unfolding m_def by (rule kids_keeps[OF Suc.prems(1) keys(2) prim])
  have same: "\<forall>x. get_field h x idKey = get_field h0 x idKey"
    using Suc.prems(1) keys(1) unfolding keeps_def by blast
  show ?case
  proof (cases "filter (m sw) arrIn = []")
    case True
    with Suc.prems(2) have res: "h' = mark_leaf h idKey sw arrIn"
      unfolding array2Tree_Suc kids_eq by simp
    have c1: "\<forall>a. node_ok marks m idf arrIn h a \<longrightarrow> node_ok marks m idf arrIn h' a"
    proof (intro allI impI)
      fix a assume ok: "node_ok marks m idf arrIn h a"
      have "get_field h' a ''$children'' = get_field h a ''$children''"
        unfolding res by (simp add: get_field_mark_leaf_other)
      from node_ok_keeps[OF _ this ok] keeps_mark_leaf show "node_ok marks m idf arrIn h' a"
        unfolding res by blast
    qed
    have c2: "\<forall>a. desc m idf arrIn sw a \<longrightarrow> node_ok marks m idf arrIn h' a"
    proof (intro allI impI)
      fix a assume "desc m idf arrIn sw a"
      then obtain k where "k \<in> set arrIn" "m sw k"
        using desc_unfold[of m idf arrIn sw a] by blast
      then have "k \<in> set (filter (m sw) arrIn)" by simp
      with True show "node_ok marks m idf arrIn h' a" by simp
    qed
    have c3: "\<forall>c\<in>set arrIn. marks \<longrightarrow> sw = idf c \<longrightarrow> filter (m sw) arrIn = [] \<longrightarrow> leaf h' c"
    proof (intro ballI impI)
      fix c assume c: "c \<in> set arrIn" and sw: "sw = idf c" and "marks"
      with U have U': "unique_ids h0 idKey arrIn" by blast
      have "is_obj h c" using objs c Suc.prems(1) unfolding keeps_def by blast
      from mark_leaf_finds_all[OF U' same c this]
      show "leaf h' c" unfolding res sw idf_def .
    qed
    have c4: "unmarked m idf arrIn h h'"
      unfolding res idf_def
      by (rule mark_leaf_unmarked_all[where m = m and sw = sw, OF same True])
    from c1 c2 c3 c4 show ?thesis by blast
  next
    case False
    let ?ha = "h @ [Arr (map JRef (filter (m sw) arrIn))]"
    from False Suc.prems(2) have run:
      "tree_each f rt arrIn idKey parentKey level (filter (m sw) arrIn) ?ha = Some h'"
      unfolding array2Tree_Suc kids_eq by (auto split: option.splits)
    have ka: "keeps h ?ha" by (rule keeps_alloc)
    have k0a: "keeps h0 ?ha" using keeps_trans[OF Suc.prems(1) ka] .
    have call: "\<forall>sw level h v h'. keeps h0 h \<longrightarrow>
      array2Tree f rt arrIn idKey parentKey sw level h = Some (v, h') \<longrightarrow>
      (\<forall>a. node_ok marks m idf arrIn h a \<longrightarrow> node_ok marks m idf arrIn h' a) \<and>
      (\<forall>a. desc m idf arrIn sw a \<longrightarrow> node_ok marks m idf arrIn h' a) \<and>
      (\<forall>c\<in>set arrIn. marks \<longrightarrow> sw = idf c \<longrightarrow> filter (m sw) arrIn = [] \<longrightarrow> leaf h' c) \<and>
      unmarked m idf arrIn h h'"
      by (intro allI impI) (rule Suc.IH)
    have sub: "set (filter (m sw) arrIn) \<subseteq> set arrIn" by simp
    from tree_each_nodes[where f = f, OF m_def idf_def objs keys prim call k0a sub run] have
      N: "\<forall>a. node_ok marks m idf arrIn ?ha a \<longrightarrow> node_ok marks m idf arrIn h' a"
      and D: "\<forall>a. (\<exists>k\<in>set (filter (m sw) arrIn). a = k \<or> desc m idf arrIn (idf k) a)
                \<longrightarrow> node_ok marks m idf arrIn h' a"
      and M: "unmarked m idf arrIn ?ha h'"
      by blast+
    have c1: "\<forall>a. node_ok marks m idf arrIn h a \<longrightarrow> node_ok marks m idf arrIn h' a"
    proof (intro allI impI)
      fix a assume ok: "node_ok marks m idf arrIn h a"
      have "get_field ?ha a ''$children'' = get_field h a ''$children''" by simp
      from node_ok_keeps[OF ka this ok] N show "node_ok marks m idf arrIn h' a" by blast
    qed
    have c2: "\<forall>a. desc m idf arrIn sw a \<longrightarrow> node_ok marks m idf arrIn h' a"
    proof (intro allI impI)
      fix a assume "desc m idf arrIn sw a"
      then have "\<exists>k\<in>set (filter (m sw) arrIn). a = k \<or> desc m idf arrIn (idf k) a"
        unfolding desc_unfold[of m idf arrIn sw a] by auto
      with D show "node_ok marks m idf arrIn h' a" by blast
    qed
    have c3: "\<forall>c\<in>set arrIn. marks \<longrightarrow> sw = idf c \<longrightarrow> filter (m sw) arrIn = [] \<longrightarrow> leaf h' c"
      using False by blast
    have "unmarked m idf arrIn h ?ha" by (rule unmarked_same) simp
    from unmarked_trans[OF this M] have c4: "unmarked m idf arrIn h h'" .
    from c1 c2 c3 c4 show ?thesis by blast
  qed
qed

text \<open>The nodes of the returned tree are the records below the start value.\<close>

lemma in_tree_desc:
  assumes top: "h' ! r = Arr (map JRef (filter (m sw) arrIn))"
    and nodes: "\<forall>a. desc m idf arrIn sw a \<longrightarrow> node_ok marks m idf arrIn h' a"
  shows "in_tree h' (JRef r) a \<Longrightarrow> desc m idf arrIn sw a"
proof (induction rule: in_tree.induct)
  case (in_tree_top r' xs a)
  with top have "a \<in> set (filter (m sw) arrIn)" by auto
  then show ?case by (simp add: desc_child)
next
  case (in_tree_sub b c xs a)
  from nodes in_tree_sub.IH have "node_ok marks m idf arrIn h' b" by blast
  with in_tree_sub.hyps(2,4) have "xs = map JRef (filter (m (idf b)) arrIn)"
    unfolding node_ok_iff by auto
  with in_tree_sub.hyps(5) have "a \<in> set arrIn" "m (idf b) a" by auto
  with in_tree_sub.IH show ?case by (rule desc_step)
qed


section \<open>array2Tree returns when the parent references are acyclic\<close>

lemma span_less:
  assumes depth: "\<forall>a\<in>set arrIn. \<forall>b\<in>set arrIn. m (idf b) a \<longrightarrow> d b < d a"
    and el: "el \<in> set arrIn" "m sw el"
  shows "span m d arrIn (idf el) < span m d arrIn sw"
  unfolding span_def
proof (rule psubset_card_mono)
  show "finite {a \<in> set arrIn. \<exists>k\<in>set arrIn. m sw k \<and> d k \<le> d a}" by simp
  have "el \<in> {a \<in> set arrIn. \<exists>k\<in>set arrIn. m sw k \<and> d k \<le> d a}" using el by auto
  moreover have "el \<notin> {a \<in> set arrIn. \<exists>k\<in>set arrIn. m (idf el) k \<and> d k \<le> d a}"
    using depth el(1) by fastforce
  moreover have "{a \<in> set arrIn. \<exists>k\<in>set arrIn. m (idf el) k \<and> d k \<le> d a}
      \<subseteq> {a \<in> set arrIn. \<exists>k\<in>set arrIn. m sw k \<and> d k \<le> d a}"
  proof
    fix a assume "a \<in> {a \<in> set arrIn. \<exists>k\<in>set arrIn. m (idf el) k \<and> d k \<le> d a}"
    then obtain k where a: "a \<in> set arrIn" and k: "k \<in> set arrIn" "m (idf el) k" "d k \<le> d a"
      by blast
    from depth k(1,2) el(1) have "d el < d k" by blast
    with k(3) have "d el \<le> d a" by simp
    with a el show "a \<in> {a \<in> set arrIn. \<exists>k\<in>set arrIn. m sw k \<and> d k \<le> d a}" by blast
  qed
  ultimately show "{a \<in> set arrIn. \<exists>k\<in>set arrIn. m (idf el) k \<and> d k \<le> d a}
      \<subset> {a \<in> set arrIn. \<exists>k\<in>set arrIn. m sw k \<and> d k \<le> d a}" by blast
qed

lemma span_le: "span m d arrIn sw \<le> length arrIn"
proof -
  have "span m d arrIn sw \<le> card (set arrIn)"
    unfolding span_def by (rule card_mono) auto
  also have "\<dots> \<le> length arrIn" by (rule card_length)
  finally show ?thesis .
qed

lemma tree_each_step:
  "array2Tree f rt arrIn idKey parentKey
       (get_field (set_field h el ''$level'' (num_of_nat level)) el idKey) (level + 1)
       (set_field h el ''$level'' (num_of_nat level)) = Some (sub, h2) \<Longrightarrow>
   tree_each f rt arrIn idKey parentKey level (el # els) h =
   tree_each f rt arrIn idKey parentKey level els
       (if truthy sub then set_field h2 el ''$children'' sub
        else set_field (h2 @ [Arr []]) el ''$children'' (JRef (length h2)))"
  by (simp add: alloc_def Let_def)

lemma tree_each_total:
  assumes idf_def: "idf = (\<lambda>a. get_field h0 a idKey)"
    and key: "idKey \<notin> set build_meta"
    and call: "\<forall>sw level h. keeps h0 h \<longrightarrow> span m d arrIn sw < f \<longrightarrow>
      (\<exists>v h'. array2Tree f rt arrIn idKey parentKey sw level h = Some (v, h'))"
  shows "keeps h0 h \<Longrightarrow> \<forall>k\<in>set els. span m d arrIn (idf k) < f \<Longrightarrow>
      \<exists>h'. tree_each f rt arrIn idKey parentKey level els h = Some h'"
proof (induction els arbitrary: h)
  case Nil
  then show ?case by simp
next
  case (Cons el els)
  let ?h1 = "set_field h el ''$level'' (num_of_nat level)"
  have k1: "keeps h ?h1" by (rule keeps_set_field) (simp_all add: build_meta_def)
  have k01: "keeps h0 ?h1" using keeps_trans[OF Cons.prems(1) k1] .
  have id_el: "get_field ?h1 el idKey = idf el"
    using k01 key unfolding keeps_def idf_def by blast
  have "span m d arrIn (idf el) < f" using Cons.prems(2) by simp
  with call k01 obtain sub h2 where
    sub: "array2Tree f rt arrIn idKey parentKey (idf el) (level + 1) ?h1 = Some (sub, h2)"
    by blast
  let ?hc = "if truthy sub then set_field h2 el ''$children'' sub
        else set_field (h2 @ [Arr []]) el ''$children'' (JRef (length h2))"
  have "keeps h0 ?hc"
    using keeps_trans[OF keeps_trans[OF k01 array2Tree_keeps[OF sub]] keeps_child] .
  moreover have "\<forall>k\<in>set els. span m d arrIn (idf k) < f" using Cons.prems(2) by simp
  ultimately obtain h' where
    "tree_each f rt arrIn idKey parentKey level els ?hc = Some h'"
    using Cons.IH by blast
  then show ?case
    unfolding tree_each_step[where f = f, OF sub[folded id_el]] by blast
qed

lemma array2Tree_total:
  assumes m_def: "m = matches4 rt h0 parentKey" and idf_def: "idf = (\<lambda>a. get_field h0 a idKey)"
    and keys: "idKey \<notin> set build_meta" "parentKey \<notin> set build_meta"
    and prim: "\<forall>a\<in>set arrIn. \<not> is_ref (get_field h0 a parentKey)"
    and depth: "\<forall>a\<in>set arrIn. \<forall>b\<in>set arrIn. m (idf b) a \<longrightarrow> d b < d a"
  shows "keeps h0 h \<Longrightarrow> span m d arrIn sw < f \<Longrightarrow>
      \<exists>v h'. array2Tree f rt arrIn idKey parentKey sw level h = Some (v, h')"
proof (induction f arbitrary: sw level h)
  case 0
  then show ?case by simp
next
  case (Suc f)
  have kids_eq: "filter (matches4 rt h parentKey sw) arrIn = filter (m sw) arrIn"
    unfolding m_def by (rule kids_keeps[OF Suc.prems(1) keys(2) prim])
  show ?case
  proof (cases "filter (m sw) arrIn = []")
    case True
    then show ?thesis unfolding array2Tree_Suc kids_eq by simp
  next
    case False
    let ?ha = "h @ [Arr (map JRef (filter (m sw) arrIn))]"
    have k0a: "keeps h0 ?ha" using keeps_trans[OF Suc.prems(1) keeps_alloc] .
    have call: "\<forall>sw level h. keeps h0 h \<longrightarrow> span m d arrIn sw < f \<longrightarrow>
      (\<exists>v h'. array2Tree f rt arrIn idKey parentKey sw level h = Some (v, h'))"
      by (intro allI impI) (rule Suc.IH)
    have "\<forall>k\<in>set (filter (m sw) arrIn). span m d arrIn (idf k) < f"
    proof
      fix k assume "k \<in> set (filter (m sw) arrIn)"
      then have "k \<in> set arrIn" "m sw k" by simp_all
      from span_less[OF depth this] Suc.prems(2) show "span m d arrIn (idf k) < f" by simp
    qed
    from tree_each_total[where f = f, OF idf_def keys(1) call k0a this]
    obtain h' where
      "tree_each f rt arrIn idKey parentKey level (filter (m sw) arrIn) ?ha = Some h'"
      by blast
    with False show ?thesis unfolding array2Tree_Suc kids_eq by simp
  qed
qed

lemma depth_matches4:
  assumes U: "unique_ids h idKey arrIn" and A: "acyclic_parents h idKey parentKey d arrIn"
  shows "\<forall>a\<in>set arrIn. \<forall>b\<in>set arrIn.
      matches4 rt h parentKey (get_field h b idKey) a \<longrightarrow> d b < d a"
proof (intro ballI impI)
  fix a b assume a: "a \<in> set arrIn" and b: "b \<in> set arrIn"
    and mb: "matches4 rt h parentKey (get_field h b idKey) a"
  have nb: "\<not> loose_eq_null (get_field h b idKey)" using U b by (simp add: unique_ids_def)
  with mb have "strict_eq (get_field h a parentKey) (get_field h b idKey)"
    by (simp add: matches4_def)
  then show "d b < d a" using A a b by (simp add: acyclic_parents_def)
qed

section \<open>The leaf mark of the three traversals\<close>

lemma in_tree_ref: "in_tree h v a \<Longrightarrow> \<exists>r. v = JRef r"
  by (induction rule: in_tree.induct) auto

lemma array2Tree_leaves:
  assumes U: "marks \<longrightarrow> unique_ids h idKey arrIn"
    and objs: "\<forall>a\<in>set arrIn. is_obj h a"
    and keys: "idKey \<notin> set build_meta" "parentKey \<notin> set build_meta"
    and prim: "\<forall>a\<in>set arrIn. \<not> is_ref (get_field h a parentKey)"
    and run: "array2Tree f rt arrIn idKey parentKey sw level h = Some (v, h')"
  shows "(\<forall>a. in_tree h' v a \<longrightarrow>
            node_ok marks (matches4 rt h parentKey) (\<lambda>a. get_field h a idKey) arrIn h' a) \<and>
         unmarked (matches4 rt h parentKey) (\<lambda>a. get_field h a idKey) arrIn h h'"
proof -
  let ?m = "matches4 rt h parentKey" and ?idf = "\<lambda>a. get_field h a idKey"
  from array2Tree_nodes[OF refl refl U objs keys prim keeps_refl run] have
    D: "\<forall>a. desc ?m ?idf arrIn sw a \<longrightarrow> node_ok marks ?m ?idf arrIn h' a"
    and M: "unmarked ?m ?idf arrIn h h'"
    by blast+
  have "node_ok marks ?m ?idf arrIn h' a" if a: "in_tree h' v a" for a
  proof (cases "filter (?m sw) arrIn = []")
    case True
    with array2Tree_result[OF run] have "v = JUndefined" by blast
    with in_tree_ref[OF a] show ?thesis by simp
  next
    case False
    with array2Tree_result[OF run] have v: "v = JRef (length h)"
      and top: "h' ! length h = Arr (map JRef (filter (?m sw) arrIn))"
      by blast+
    from in_tree_desc[where m = ?m and idf = ?idf, OF top D a[unfolded v]] D
    show ?thesis by blast
  qed
  with M show ?thesis by blast
qed




section \<open>The children of the nodes of a tree\<close>

text \<open>
  C10, as the code has it. In \<^verbatim>\<open>[{id: 1, parent_id: null}, {id: 1, parent_id: null}]\<close> two
  records have the identifier 1. \<^verbatim>\<open>array2Tree\<close> returns the array of both; no record
  matches the second one as its parent and its \<^verbatim>\<open>$children\<close> is an empty array, but the
  leaf branch marks the first record that has the identifier, both times, and the second
  record has no \<^verbatim>\<open>$is_leaf\<close>.
\<close>

theorem C10_same_id_leaf_unmarked:
  "fst (the (array2Tree 4 rt_sample [0, 1] ''id'' ''parent_id'' JNull 1 h_same_id)) = JRef 2 \<and>
   snd (the (array2Tree 4 rt_sample [0, 1] ''id'' ''parent_id'' JNull 1 h_same_id)) ! 2
     = Arr [JRef 0, JRef 1] \<and>
   filter (matches4 rt_sample h_same_id ''parent_id'' (get_field h_same_id 1 ''id'')) [0, 1] = [] \<and>
   get_field (snd (the (array2Tree 4 rt_sample [0, 1] ''id'' ''parent_id'' JNull 1 h_same_id)))
     1 ''$children'' = JRef 4 \<and>
   snd (the (array2Tree 4 rt_sample [0, 1] ''id'' ''parent_id'' JNull 1 h_same_id)) ! 4 = Arr [] \<and>
   get_field (snd (the (array2Tree 4 rt_sample [0, 1] ''id'' ''parent_id'' JNull 1 h_same_id)))
     1 ''$is_leaf'' = JUndefined"
  by code_simp

text \<open>
  C10, amended. When no record matches the start value, a call of \<^verbatim>\<open>array2Tree\<close> returns
  \<^verbatim>\<open>undefined\<close>, having at most marked one record as a leaf; and whenever a call returns,
  the result is \<^verbatim>\<open>undefined\<close> if no record matches the start value and a new array of the
  matching records, which is not empty, if some do. Let the records be objects with
  primitive parent values, and the two key names none of \<^verbatim>\<open>$level\<close>, \<^verbatim>\<open>$children\<close> and
  \<^verbatim>\<open>$is_leaf\<close>. Then in the tree that a call returns, the \<^verbatim>\<open>$children\<close> of every node is
  an array, which holds the records that match the node as their parent, in input order:
  the empty array when there are none. If moreover the identifiers are unique, a node
  that no record matches as its parent has \<^verbatim>\<open>$is_leaf = 1\<close>.
\<close>

theorem C10_children_always_array:
  "(filter (matches4 rt h parentKey startWith) arrIn = [] \<longrightarrow>
      array2Tree (Suc fuel) rt arrIn idKey parentKey startWith level h
        = Some (JUndefined, mark_leaf h idKey startWith arrIn)) \<and>
   (array2Tree fuel rt arrIn idKey parentKey startWith level h = Some (v, h') \<longrightarrow>
      (filter (matches4 rt h parentKey startWith) arrIn = [] \<longrightarrow> v = JUndefined) \<and>
      (filter (matches4 rt h parentKey startWith) arrIn \<noteq> [] \<longrightarrow>
         v = JRef (length h) \<and> length h < length h' \<and>
         h' ! length h = Arr (map JRef (filter (matches4 rt h parentKey startWith) arrIn)))) \<and>
   ((\<forall>a\<in>set arrIn. is_obj h a \<and> \<not> is_ref (get_field h a parentKey)) \<and>
    idKey \<notin> set build_meta \<and> parentKey \<notin> set build_meta \<and>
    array2Tree fuel rt arrIn idKey parentKey startWith level h = Some (v, h') \<longrightarrow>
      (\<forall>a. in_tree h' v a \<longrightarrow>
         (\<exists>c. get_field h' a ''$children'' = JRef c \<and> is_arr h' c \<and>
              h' ! c = Arr (map JRef
                 (filter (matches4 rt h parentKey (get_field h a idKey)) arrIn))) \<and>
         (unique_ids h idKey arrIn \<and>
          filter (matches4 rt h parentKey (get_field h a idKey)) arrIn = [] \<longrightarrow> leaf h' a)))"
proof (intro conjI impI)
  assume "filter (matches4 rt h parentKey startWith) arrIn = []"
  then show "array2Tree (Suc fuel) rt arrIn idKey parentKey startWith level h
        = Some (JUndefined, mark_leaf h idKey startWith arrIn)"
    unfolding array2Tree_Suc by simp
next
  assume run: "array2Tree fuel rt arrIn idKey parentKey startWith level h = Some (v, h')"
    and "filter (matches4 rt h parentKey startWith) arrIn = []"
  with array2Tree_result[OF run] show "v = JUndefined" by blast
next
  assume run: "array2Tree fuel rt arrIn idKey parentKey startWith level h = Some (v, h')"
    and ne: "filter (matches4 rt h parentKey startWith) arrIn \<noteq> []"
  from array2Tree_result[OF run] ne show "v = JRef (length h)" by blast
  from array2Tree_result[OF run] ne show "length h < length h'" by blast
  from array2Tree_result[OF run] ne
  show "h' ! length h = Arr (map JRef (filter (matches4 rt h parentKey startWith) arrIn))"
    by blast
next
  assume hyp: "(\<forall>a\<in>set arrIn. is_obj h a \<and> \<not> is_ref (get_field h a parentKey)) \<and>
    idKey \<notin> set build_meta \<and> parentKey \<notin> set build_meta \<and>
    array2Tree fuel rt arrIn idKey parentKey startWith level h = Some (v, h')"
  then have objs: "\<forall>a\<in>set arrIn. is_obj h a"
    and prim: "\<forall>a\<in>set arrIn. \<not> is_ref (get_field h a parentKey)"
    and keys: "idKey \<notin> set build_meta" "parentKey \<notin> set build_meta"
    and run: "array2Tree fuel rt arrIn idKey parentKey startWith level h = Some (v, h')"
    by blast+
  let ?m = "matches4 rt h parentKey" and ?idf = "\<lambda>a. get_field h a idKey"
  show "\<forall>a. in_tree h' v a \<longrightarrow>
         (\<exists>c. get_field h' a ''$children'' = JRef c \<and> is_arr h' c \<and>
              h' ! c = Arr (map JRef (filter (?m (?idf a)) arrIn))) \<and>
         (unique_ids h idKey arrIn \<and> filter (?m (?idf a)) arrIn = [] \<longrightarrow> leaf h' a)"
  proof (intro allI impI)
    fix a assume a: "in_tree h' v a"
    from array2Tree_leaves[where marks = "unique_ids h idKey arrIn", OF _ objs keys prim run] a
    have "node_ok (unique_ids h idKey arrIn) ?m ?idf arrIn h' a" by blast
    then show "(\<exists>c. get_field h' a ''$children'' = JRef c \<and> is_arr h' c \<and>
              h' ! c = Arr (map JRef (filter (?m (?idf a)) arrIn))) \<and>
         (unique_ids h idKey arrIn \<and> filter (?m (?idf a)) arrIn = [] \<longrightarrow> leaf h' a)"
      unfolding node_ok_iff is_arr_def by auto
  qed
qed

theorem C10_children_always_array_witness:
  "filter (matches4 rt_sample h_forest ''parent_id'' (JNum (Fin 2))) [0, 1, 2] = [] \<and>
   array2Tree (Suc 0) rt_sample [0, 1, 2] ''id'' ''parent_id'' (JNum (Fin 2)) 1 h_forest
     = Some (JUndefined, mark_leaf h_forest ''id'' (JNum (Fin 2)) [0, 1, 2]) \<and>
   records_ok h_forest [0, 1, 2] \<and> unique_ids h_forest ''id'' [0, 1, 2] \<and>
   array2Tree 4 rt_sample [0, 1, 2] ''id'' ''parent_id'' JNull 1 h_forest \<noteq> None \<and>
   get_field (snd (the (array2Tree 4 rt_sample [0, 1, 2] ''id'' ''parent_id'' JNull 1 h_forest)))
     1 ''$children'' = JRef 5 \<and>
   snd (the (array2Tree 4 rt_sample [0, 1, 2] ''id'' ''parent_id'' JNull 1 h_forest)) ! 5 = Arr [] \<and>
   leaf (snd (the (array2Tree 4 rt_sample [0, 1, 2] ''id'' ''parent_id'' JNull 1 h_forest))) 1"
proof -
  note T = C10_children_always_array[where rt = rt_sample and h = h_forest
      and parentKey = "''parent_id''" and arrIn = "[0, 1, 2]" and idKey = "''id''" and level = 1]
  have R: "records_ok h_forest [0, 1, 2]" by code_simp
  have U: "unique_ids h_forest ''id'' [0, 1, 2]" by code_simp
  have nk: "filter (matches4 rt_sample h_forest ''parent_id'' (JNum (Fin 2))) [0, 1, 2] = []"
    by code_simp
  from T[where startWith = "JNum (Fin 2)" and fuel = 0, THEN conjunct1, THEN mp, OF nk]
  have w1: "array2Tree (Suc 0) rt_sample [0, 1, 2] ''id'' ''parent_id'' (JNum (Fin 2)) 1 h_forest
     = Some (JUndefined, mark_leaf h_forest ''id'' (JNum (Fin 2)) [0, 1, 2])" .
  have ne: "array2Tree 4 rt_sample [0, 1, 2] ''id'' ''parent_id'' JNull 1 h_forest \<noteq> None"
    by code_simp
  then obtain v h1 where
    run: "array2Tree 4 rt_sample [0, 1, 2] ''id'' ''parent_id'' JNull 1 h_forest = Some (v, h1)"
    by auto
  have objs: "\<forall>a\<in>set [0, 1, 2]. is_obj h_forest a \<and> \<not> is_ref (get_field h_forest a ''parent_id'')"
    by code_simp
  have keys: "''id'' \<notin> set build_meta" "''parent_id'' \<notin> set build_meta"
    by (simp_all add: build_meta_def)
  from objs keys run have hyp:
    "(\<forall>a\<in>set [0, 1, 2]. is_obj h_forest a \<and> \<not> is_ref (get_field h_forest a ''parent_id'')) \<and>
     ''id'' \<notin> set build_meta \<and> ''parent_id'' \<notin> set build_meta \<and>
     array2Tree 4 rt_sample [0, 1, 2] ''id'' ''parent_id'' JNull 1 h_forest = Some (v, h1)"
    by (simp only: simp_thms)
  note nodes = T[where startWith = JNull and fuel = 4 and v = v and h' = h1,
      THEN conjunct2, THEN conjunct2, THEN mp, OF hyp]
  have n4: "filter (matches4 rt_sample h_forest ''parent_id'' (get_field h_forest 1 ''id''))
      [0, 1, 2] = []" by code_simp
  have "fst (the (array2Tree 4 rt_sample [0, 1, 2] ''id'' ''parent_id'' JNull 1 h_forest))
      = JRef 3" by code_simp
  then have v: "v = JRef 3" unfolding run by (simp only: option.sel fst_conv)
  have "length (snd (the (array2Tree 4 rt_sample [0, 1, 2] ''id'' ''parent_id'' JNull 1
      h_forest))) = 7" by code_simp
  then have len: "length h1 = 7" unfolding run by (simp only: option.sel snd_conv)
  have "snd (the (array2Tree 4 rt_sample [0, 1, 2] ''id'' ''parent_id'' JNull 1 h_forest)) ! 3
      = Arr [JRef 0]" by code_simp
  then have a3: "h1 ! 3 = Arr [JRef 0]" unfolding run by (simp only: option.sel snd_conv)
  have "get_field (snd (the (array2Tree 4 rt_sample [0, 1, 2] ''id'' ''parent_id'' JNull 1
      h_forest))) 0 ''$children'' = JRef 4" by code_simp
  then have c0: "get_field h1 0 ''$children'' = JRef 4"
    unfolding run by (simp only: option.sel snd_conv)
  have "snd (the (array2Tree 4 rt_sample [0, 1, 2] ''id'' ''parent_id'' JNull 1 h_forest)) ! 4
      = Arr [JRef 1, JRef 2]" by code_simp
  then have a4: "h1 ! 4 = Arr [JRef 1, JRef 2]"
    unfolding run by (simp only: option.sel snd_conv)
  have "get_field (snd (the (array2Tree 4 rt_sample [0, 1, 2] ''id'' ''parent_id'' JNull 1
      h_forest))) 1 ''$children'' = JRef 5" by code_simp
  then have c1: "get_field h1 1 ''$children'' = JRef 5"
    unfolding run by (simp only: option.sel snd_conv)
  have "in_tree h1 v 0" by (rule in_tree_top[OF v _ a3]) (simp_all add: len)
  then have "in_tree h1 v 1" by (rule in_tree_sub[OF _ c0 _ a4]) (simp_all add: len)
  with nodes have
    "\<exists>c. get_field h1 1 ''$children'' = JRef c \<and> is_arr h1 c \<and>
        h1 ! c = Arr (map JRef
          (filter (matches4 rt_sample h_forest ''parent_id'' (get_field h_forest 1 ''id''))
             [0, 1, 2]))"
    and "unique_ids h_forest ''id'' [0, 1, 2] \<and>
       filter (matches4 rt_sample h_forest ''parent_id'' (get_field h_forest 1 ''id''))
         [0, 1, 2] = [] \<longrightarrow> leaf h1 1"
    by blast+
  with c1 n4 U have "h1 ! 5 = Arr []" "leaf h1 1" by auto
  with c1 have
    "get_field (snd (the (array2Tree 4 rt_sample [0, 1, 2] ''id'' ''parent_id'' JNull 1 h_forest)))
       1 ''$children'' = JRef 5"
    "snd (the (array2Tree 4 rt_sample [0, 1, 2] ''id'' ''parent_id'' JNull 1 h_forest)) ! 5 = Arr []"
    "leaf (snd (the (array2Tree 4 rt_sample [0, 1, 2] ''id'' ''parent_id'' JNull 1 h_forest))) 1"
    unfolding run by (simp_all only: option.sel snd_conv)
  with nk w1 R U ne show ?thesis by (simp only: simp_thms)
qed

section \<open>Trees in the store\<close>

declare repr_node.simps [simp del]

lemma repr_node_mono:
  "repr_node fld H S x t \<Longrightarrow> S' \<subseteq> S \<Longrightarrow> repr_node fld H S' x t"
proof (induction t arbitrary: S S' x)
  case (RNode a ts)
  from RNode.prems(1) obtain fs c ys where
    1: "x \<notin> S" "x < length H" "H ! x = Obj fs" "node_fields fs"
       "\<forall>k. k \<noteq> ''$children'' \<longrightarrow> lookup_prop fs k = fld a k"
       "map_of fs ''$children'' = Some (JRef c)"
       "c \<notin> insert x S" "c < length H" "H ! c = Arr (map JRef ys)"
    and kids: "list_all2 (\<lambda>y t. repr_node fld H (insert c (insert x S)) y t) ys ts"
    unfolding repr_node.simps by blast
  have "list_all2 (\<lambda>y t. repr_node fld H (insert c (insert x S')) y t) ys ts"
  proof (rule list.rel_mono_strong[OF kids])
    fix y t assume "y \<in> set ys" "t \<in> set ts"
      and "repr_node fld H (insert c (insert x S)) y t"
    with RNode.IH[of t "insert c (insert x S)" y "insert c (insert x S')"] RNode.prems(2)
    show "repr_node fld H (insert c (insert x S')) y t" by blast
  qed
  with 1 RNode.prems(2) show ?case unfolding repr_node.simps by blast
qed

text \<open>Only the cells outside of \<open>S\<close> matter.\<close>

lemma repr_node_stable:
  "repr_node fld H S x t \<Longrightarrow> length H \<le> length H2 \<Longrightarrow>
     \<forall>y<length H. y \<notin> S \<longrightarrow> H2 ! y = H ! y \<Longrightarrow> repr_node fld H2 S x t"
proof (induction t arbitrary: S x)
  case (RNode a ts)
  from RNode.prems(1) obtain fs c ys where
    1: "x \<notin> S" "x < length H" "H ! x = Obj fs" "node_fields fs"
       "\<forall>k. k \<noteq> ''$children'' \<longrightarrow> lookup_prop fs k = fld a k"
       "map_of fs ''$children'' = Some (JRef c)"
       "c \<notin> insert x S" "c < length H" "H ! c = Arr (map JRef ys)"
    and kids: "list_all2 (\<lambda>y t. repr_node fld H (insert c (insert x S)) y t) ys ts"
    unfolding repr_node.simps by blast
  have x2: "H2 ! x = Obj fs" "x < length H2" using 1(1,2,3) RNode.prems(2,3) by auto
  have c2: "H2 ! c = Arr (map JRef ys)" "c < length H2" using 1(7,8,9) RNode.prems(2,3) by auto
  have "list_all2 (\<lambda>y t. repr_node fld H2 (insert c (insert x S)) y t) ys ts"
  proof (rule list.rel_mono_strong[OF kids])
    fix y t assume "y \<in> set ys" "t \<in> set ts"
      and "repr_node fld H (insert c (insert x S)) y t"
    with RNode.IH[of t "insert c (insert x S)" y] RNode.prems(2,3)
    show "repr_node fld H2 (insert c (insert x S)) y t" by blast
  qed
  with 1 x2 c2 show ?case unfolding repr_node.simps by blast
qed

lemma repr_node_extend:
  "repr_node fld H S x t \<Longrightarrow> length H \<le> length H2 \<Longrightarrow> take (length H) H2 = H \<Longrightarrow>
     repr_node fld H2 S x t"
proof (rule repr_node_stable)
  assume e: "take (length H) H2 = H"
  show "\<forall>y<length H. y \<notin> S \<longrightarrow> H2 ! y = H ! y"
  proof (intro allI impI)
    fix y assume "y < length H"
    then have "take (length H) H2 ! y = H2 ! y" by simp
    with e show "H2 ! y = H ! y" by simp
  qed
qed

lemma json_val_plain: "plain v \<Longrightarrow> json_val H st v = Inr (Some (jprim v))"
  by (cases v) (auto split: jsnum.splits)

lemma json_parse_jprim: "plain v \<Longrightarrow> json_parse (jprim v) H' = (v, H')"
  by (cases v) (auto split: jsnum.splits)

section \<open>The copy that \<^verbatim>\<open>JSON.parse(JSON.stringify(v))\<close> makes of a tree\<close>

lemma json_props_fields:
  assumes "\<forall>p\<in>set gs. (fst p \<noteq> ''$children'' \<longrightarrow> plain (snd p)) \<and>
             (fst p = ''$children'' \<longrightarrow> json_val H st (snd p) = Inr (Some jc))"
  shows "json_props H st gs
           = Inr (map (\<lambda>p. (fst p, if fst p = ''$children'' then jc else jprim (snd p))) gs)"
  using assms
proof (induction gs)
  case Nil
  then show ?case by simp
next
  case (Cons p gs)
  then have rest: "json_props H st gs
      = Inr (map (\<lambda>p. (fst p, if fst p = ''$children'' then jc else jprim (snd p))) gs)"
    by simp
  show ?case
  proof (cases "fst p = ''$children''")
    case True
    with Cons.prems have "json_val H st (snd p) = Inr (Some jc)" by simp
    with rest True show ?thesis by simp
  next
    case False
    with Cons.prems have "json_val H st (snd p) = Inr (Some (jprim (snd p)))"
      by (simp add: json_val_plain)
    with rest False show ?thesis by simp
  qed
qed

lemma json_parse_props_plain:
  assumes "\<forall>p\<in>set gs. fst p \<noteq> ''$children'' \<and> plain (snd p)"
  shows "json_parse_props
           (map (\<lambda>p. (fst p, if fst p = ''$children'' then jc else jprim (snd p))) gs) H'
         = (gs, H')"
  using assms by (induction gs) (auto simp: json_parse_jprim)

lemma json_parse_props_fields:
  assumes "distinct (map fst gs)" "\<forall>p\<in>set gs. fst p \<noteq> ''$children'' \<longrightarrow> plain (snd p)"
    and "''$children'' \<in> fst ` set gs" and "json_parse jc H' = (w, H1)"
  shows "json_parse_props
           (map (\<lambda>p. (fst p, if fst p = ''$children'' then jc else jprim (snd p))) gs) H'
         = (map (\<lambda>p. (fst p, if fst p = ''$children'' then w else snd p)) gs, H1)"
  using assms(1,2,3)
proof (induction gs)
  case Nil
  then show ?case by simp
next
  case (Cons p gs)
  show ?case
  proof (cases "fst p = ''$children''")
    case True
    from Cons.prems(1) have "fst p \<notin> fst ` set gs" by simp
    with True have no: "\<forall>q\<in>set gs. fst q \<noteq> ''$children''" by force
    with Cons.prems(2) have pl: "\<forall>q\<in>set gs. fst q \<noteq> ''$children'' \<and> plain (snd q)" by simp
    have same: "map (\<lambda>p. (fst p, if fst p = ''$children'' then w else snd p)) gs = gs"
      using no by (induction gs) auto
    from json_parse_props_plain[OF pl, of jc H1] True assms(4) same show ?thesis by simp
  next
    case False
    with Cons.prems have "plain (snd p)" "''$children'' \<in> fst ` set gs" by auto
    with Cons.IH Cons.prems(1,2) False show ?thesis by (simp add: json_parse_jprim)
  qed
qed

lemma map_of_children:
  "map_of (map (\<lambda>p. (fst p, if fst p = ''$children'' then w else snd p)) fs) k =
     (if k = ''$children'' then map_option (\<lambda>v. w) (map_of fs k) else map_of fs k)"
  by (induction fs) auto

lemma json_elems_copies:
  assumes kids: "list_all2 (\<lambda>y t. repr_node fld H S y t) ys ts"
    and IH: "\<forall>t\<in>set ts. \<forall>S x st. repr_node fld H S x t \<and> set st \<subseteq> S \<longrightarrow>
       (\<exists>j. json_val H st (JRef x) = Inr (Some j) \<and> copies fld j t)"
    and st: "set st \<subseteq> S"
  shows "\<exists>js. json_elems H st (map JRef ys) = Inr js \<and> list_all2 (copies fld) js ts"
  using kids IH
proof (induction rule: list_all2_induct)
  case Nil
  then show ?case by simp
next
  case (Cons y ys t ts)
  from Cons.prems Cons.hyps(1) st obtain j where
    j: "json_val H st (JRef y) = Inr (Some j)" "copies fld j t"
    by (metis list.set_intros(1))
  from Cons.IH Cons.prems obtain js where
    js: "json_elems H st (map JRef ys) = Inr js" "list_all2 (copies fld) js ts"
    by auto
  from j js show ?case by simp
qed

lemma json_parse_elems_copies:
  "list_all2 (copies fld) js ts \<Longrightarrow>
     \<exists>ys' H''. json_parse_elems js H' = (map JRef ys', H'') \<and> length H' \<le> length H'' \<and>
        take (length H') H'' = H' \<and>
        (\<forall>S'. (\<forall>s\<in>S'. s < length H' \<or> length H'' \<le> s) \<longrightarrow>
           list_all2 (\<lambda>y t. repr_node fld H'' S' y t) ys' ts)"
proof (induction arbitrary: H' rule: list_all2_induct)
  case Nil
  then show ?case by simp
next
  case (Cons j js t ts)
  from Cons.hyps(1) obtain x1 H1 where
    p1: "json_parse j H' = (JRef x1, H1)" and l1: "length H' \<le> length H1"
    and t1: "take (length H') H1 = H'"
    and r1: "\<forall>S'. (\<forall>s\<in>S'. s < length H' \<or> length H1 \<le> s) \<longrightarrow> repr_node fld H1 S' x1 t"
    unfolding copies_def by blast
  from Cons.IH[of H1] obtain ys' H2 where
    p2: "json_parse_elems js H1 = (map JRef ys', H2)" and l2: "length H1 \<le> length H2"
    and t2: "take (length H1) H2 = H1"
    and r2: "\<forall>S'. (\<forall>s\<in>S'. s < length H1 \<or> length H2 \<le> s) \<longrightarrow>
           list_all2 (\<lambda>y t. repr_node fld H2 S' y t) ys' ts"
    by blast
  have p: "json_parse_elems (j # js) H' = (map JRef (x1 # ys'), H2)" using p1 p2 by simp
  have "take (length H') H2 = take (length H') (take (length H1) H2)" using l1 by (simp add: min_def)
  then have t: "take (length H') H2 = H'" using t1 t2 by simp
  have r: "list_all2 (\<lambda>y t. repr_node fld H2 S' y t) (x1 # ys') (t # ts)"
    if S': "\<forall>s\<in>S'. s < length H' \<or> length H2 \<le> s" for S'
  proof -
    from S' l2 have "\<forall>s\<in>S'. s < length H' \<or> length H1 \<le> s" by auto
    with r1 have "repr_node fld H1 S' x1 t" by blast
    from repr_node_extend[OF this l2 t2] have a: "repr_node fld H2 S' x1 t" .
    from S' l1 have "\<forall>s\<in>S'. s < length H1 \<or> length H2 \<le> s" by auto
    with r2 have "list_all2 (\<lambda>y t. repr_node fld H2 S' y t) ys' ts" by blast
    with a show ?thesis by simp
  qed
  from p l1 l2 t r show ?case by (metis order_trans)
qed

lemma json_val_copies:
  "repr_node fld H S x t \<Longrightarrow> set st \<subseteq> S \<Longrightarrow>
     \<exists>j. json_val H st (JRef x) = Inr (Some j) \<and> copies fld j t"
proof (induction t arbitrary: S x st)
  case (RNode a ts)
  let ?ch = "''$children''"
  from RNode.prems(1) obtain fs c ys where
    x: "x \<notin> S" "x < length H" "H ! x = Obj fs" and nf: "node_fields fs"
    and lk: "\<forall>k. k \<noteq> ?ch \<longrightarrow> lookup_prop fs k = fld a k"
    and ch: "map_of fs ?ch = Some (JRef c)"
    and c: "c \<notin> insert x S" "c < length H" "H ! c = Arr (map JRef ys)"
    and kids: "list_all2 (\<lambda>y t. repr_node fld H (insert c (insert x S)) y t) ys ts"
    unfolding repr_node.simps by blast
  have IH: "\<forall>t\<in>set ts. \<forall>S x st. repr_node fld H S x t \<and> set st \<subseteq> S \<longrightarrow>
       (\<exists>j. json_val H st (JRef x) = Inr (Some j) \<and> copies fld j t)"
    using RNode.IH by blast
  have st2: "set (c # x # st) \<subseteq> insert c (insert x S)" using RNode.prems(2) by auto
  from json_elems_copies[OF kids IH st2] obtain js where
    je: "json_elems H (c # x # st) (map JRef ys) = Inr js" and cs: "list_all2 (copies fld) js ts"
    by blast
  have "c \<notin> set (x # st)" using c(1) RNode.prems(2) by auto
  with c(2,3) je have jc: "json_val H (x # st) (JRef c) = Inr (Some (JsArr js))" by simp
  have dist: "distinct (map fst fs)"
    and pl: "\<forall>p\<in>set fs. fst p \<noteq> ?ch \<longrightarrow> plain (snd p)"
    using nf by (auto simp: node_fields_def list_all_iff)
  have chv: "snd p = JRef c" if "p \<in> set fs" "fst p = ?ch" for p
  proof -
    from that have "(?ch, snd p) \<in> set fs" by (metis prod.collapse)
    with dist have "map_of fs ?ch = Some (snd p)" by simp
    with ch show ?thesis by simp
  qed
  have "\<forall>p\<in>set fs. (fst p \<noteq> ?ch \<longrightarrow> plain (snd p)) \<and>
             (fst p = ?ch \<longrightarrow> json_val H (x # st) (snd p) = Inr (Some (JsArr js)))"
    using pl chv jc by auto
  from json_props_fields[OF this] have jp: "json_props H (x # st) fs
      = Inr (map (\<lambda>p. (fst p, if fst p = ?ch then JsArr js else jprim (snd p))) fs)" .
  let ?ps = "map (\<lambda>p. (fst p, if fst p = ?ch then JsArr js else jprim (snd p))) fs"
  have "x \<notin> set st" using x(1) RNode.prems(2) by auto
  with x(2,3) jp have jv: "json_val H st (JRef x) = Inr (Some (JsObj ?ps))" by simp
  have chin: "?ch \<in> fst ` set fs" using ch by (metis map_of_eq_None_iff option.distinct(1))
  have "copies fld (JsObj ?ps) (RNode a ts)"
    unfolding copies_def
  proof
    fix H'
    from json_parse_elems_copies[OF cs, of H'] obtain ys' Hk where
      pe: "json_parse_elems js H' = (map JRef ys', Hk)" and lk1: "length H' \<le> length Hk"
      and tk: "take (length H') Hk = H'"
      and rk: "\<forall>S'. (\<forall>s\<in>S'. s < length H' \<or> length Hk \<le> s) \<longrightarrow>
           list_all2 (\<lambda>y t. repr_node fld Hk S' y t) ys' ts"
      by blast
    let ?H1 = "Hk @ [Arr (map JRef ys')]"
    let ?fs' = "map (\<lambda>p. (fst p, if fst p = ?ch then JRef (length Hk) else snd p)) fs"
    let ?H2 = "?H1 @ [Obj ?fs']"
    have pa: "json_parse (JsArr js) H' = (JRef (length Hk), ?H1)"
      using pe by (simp add: alloc_def)
    from json_parse_props_fields[OF dist pl chin pa]
    have pp: "json_parse_props ?ps H' = (?fs', ?H1)" .
    have po: "json_parse (JsObj ?ps) H' = (JRef (Suc (length Hk)), ?H2)"
      using pp by (simp add: alloc_def)
    have l: "length H' \<le> length ?H2" using lk1 by simp
    have t: "take (length H') ?H2 = H'" using lk1 tk by simp
    have r: "repr_node fld ?H2 S' (Suc (length Hk)) (RNode a ts)"
      if S': "\<forall>s\<in>S'. s < length H' \<or> length ?H2 \<le> s" for S'
    proof -
      have 1: "Suc (length Hk) \<notin> S'" using S' lk1 by fastforce
      have 2: "Suc (length Hk) < length ?H2" by simp
      have 3: "?H2 ! Suc (length Hk) = Obj ?fs'" by (simp add: nth_append)
      have 4: "node_fields ?fs'"
        using dist pl by (auto simp: node_fields_def list_all_iff comp_def)
      have 5: "\<forall>k. k \<noteq> ?ch \<longrightarrow> lookup_prop ?fs' k = fld a k"
        using lk by (simp add: lookup_prop_def map_of_children)
      have 6: "map_of ?fs' ?ch = Some (JRef (length Hk))"
        using ch by (simp add: map_of_children)
      have 7: "length Hk \<notin> insert (Suc (length Hk)) S'" using S' lk1 by fastforce
      have 8: "length Hk < length ?H2" by simp
      have 9: "?H2 ! length Hk = Arr (map JRef ys')" by (simp add: nth_append)
      let ?S2 = "insert (length Hk) (insert (Suc (length Hk)) S')"
      have "\<forall>s\<in>?S2. s < length H' \<or> length Hk \<le> s" using S' by auto
      with rk have "list_all2 (\<lambda>y t. repr_node fld Hk ?S2 y t) ys' ts" by blast
      then have 10: "list_all2 (\<lambda>y t. repr_node fld ?H2 ?S2 y t) ys' ts"
      proof (rule list.rel_mono_strong)
        fix y t assume "repr_node fld Hk ?S2 y t"
        then show "repr_node fld ?H2 ?S2 y t" by (rule repr_node_extend) simp_all
      qed
      from 1 2 3 4 5 6 7 8 9 10 show ?thesis unfolding repr_node.simps by blast
    qed
    from po l t r show "\<exists>x' H''. json_parse (JsObj ?ps) H' = (JRef x', H'') \<and>
        length H' \<le> length H'' \<and> take (length H') H'' = H' \<and>
        (\<forall>S'. (\<forall>s\<in>S'. s < length H' \<or> length H'' \<le> s) \<longrightarrow>
           repr_node fld H'' S' x' (RNode a ts))"
      by blast
  qed
  with jv show ?case by blast
qed

section \<open>tree2Array on a tree in the store\<close>

lemma nth_of_take: "take (length H) H2 = H \<Longrightarrow> y < length H \<Longrightarrow> H2 ! y = H ! y"
  by (metis nth_take)

lemma copy_of_extend:
  assumes "copy_of fld H node a" "take (length H) H2 = H" "length H \<le> length H2"
  shows "copy_of fld H2 node a"
proof -
  from assms(1) have n: "node < length H" by (simp add: copy_of_def)
  from nth_of_take[OF assms(2) n] have "H2 ! node = H ! node" .
  with n assms(3) have "get_field H2 node k = get_field H node k" for k
    by (simp add: get_field_def)
  with assms(1,3) n show ?thesis by (simp add: copy_of_def)
qed

lemma json_roundtrip_array:
  assumes c: "c < length H" "H ! c = Arr (map JRef ys)"
    and kids: "list_all2 (\<lambda>y t. repr_node fld H {c} y t) ys ts"
  shows "\<exists>c' ys' H''. json_roundtrip H (JRef c) = Inr (JRef c', H'') \<and>
     length H \<le> c' \<and> c' < length H'' \<and> take (length H) H'' = H \<and>
     H'' ! c' = Arr (map JRef ys') \<and>
     (\<forall>S'. (\<forall>s\<in>S'. s < length H) \<longrightarrow> list_all2 (\<lambda>y t. repr_node fld H'' S' y t) ys' ts)"
proof -
  have IH: "\<forall>t\<in>set ts. \<forall>S x st. repr_node fld H S x t \<and> set st \<subseteq> S \<longrightarrow>
       (\<exists>j. json_val H st (JRef x) = Inr (Some j) \<and> copies fld j t)"
    using json_val_copies by blast
  have "set [c] \<subseteq> {c}" by simp
  from json_elems_copies[OF kids IH this] obtain js where
    je: "json_elems H [c] (map JRef ys) = Inr js" and cs: "list_all2 (copies fld) js ts"
    by blast
  from c je have jv: "json_val H [] (JRef c) = Inr (Some (JsArr js))" by simp
  from json_parse_elems_copies[OF cs, of H] obtain ys' Hk where
    pe: "json_parse_elems js H = (map JRef ys', Hk)" and l: "length H \<le> length Hk"
    and t: "take (length H) Hk = H"
    and r: "\<forall>S'. (\<forall>s\<in>S'. s < length H \<or> length Hk \<le> s) \<longrightarrow>
           list_all2 (\<lambda>y t. repr_node fld Hk S' y t) ys' ts"
    by blast
  let ?H2 = "Hk @ [Arr (map JRef ys')]"
  have rt: "json_roundtrip H (JRef c) = Inr (JRef (length Hk), ?H2)"
    using jv pe by (simp add: json_roundtrip_def alloc_def)
  have 1: "take (length H) ?H2 = H" using l t by simp
  have 2: "?H2 ! length Hk = Arr (map JRef ys')" by simp
  have 3: "list_all2 (\<lambda>y t. repr_node fld ?H2 S' y t) ys' ts" if "\<forall>s\<in>S'. s < length H" for S'
  proof -
    from that r have "list_all2 (\<lambda>y t. repr_node fld Hk S' y t) ys' ts" by blast
    then show ?thesis
    proof (rule list.rel_mono_strong)
      fix y t assume "repr_node fld Hk S' y t"
      then show "repr_node fld ?H2 S' y t" by (rule repr_node_extend) simp_all
    qed
  qed
  from rt l 1 2 3 show ?thesis by (intro exI[of _ "length Hk"] exI[of _ ys'] exI[of _ ?H2]) simp
qed

lemma tree2Array_each_Cons_sub:
  assumes "js_get rt h3 el key = Inr c" "truthy c" "json_roundtrip h3 c = Inr (subs, h4)"
    and "tree2Array fuel rt subs key (num_of_nat (Suc n)) (Suc level)
           (delete_field h4 (length H) key, Suc n) = Some (Inr subTree, s')"
    and "h3 = set_field (set_field (H @ [Obj (own_props rt H el)]) (length H) ''$id''
                (num_of_nat (Suc n))) (length H) ''$parent_id'' pv"
  shows "tree2Array_each fuel rt key pv level (el # els) roots (H, n)
       = tree2Array_each fuel rt key pv level els ((roots @ [length H]) @ subTree) s'"
  using assms by (simp add: alloc_def Let_def)

lemma each_of_steps:
  shows "list_all2 (\<lambda>x t. repr_node fld H {} x t) xs ts \<Longrightarrow> \<forall>t\<in>set ts. node_step fld rt t \<Longrightarrow>
     length (nodes_of ts) \<le> F \<Longrightarrow>
     \<exists>out H'. tree2Array_each F rt ''$children'' pv lvl (map JRef xs) roots (H, n)
                 = Some (Inr (roots @ out), H', n + length (nodes_of ts)) \<and>
       length H \<le> length H' \<and> take (length H) H' = H \<and>
       list_all2 (copy_of fld H') out (nodes_of ts)"
proof (induction ts arbitrary: xs H n roots)
  case Nil
  then show ?case by (simp add: nodes_of_def)
next
  case (Cons t ts)
  from Cons.prems(1) obtain x xs' where xs: "xs = x # xs'"
    and hx: "repr_node fld H {} x t" and hxs: "list_all2 (\<lambda>x t. repr_node fld H {} x t) xs' ts"
    by (auto simp: list_all2_Cons2)
  have F: "length (preorder t) \<le> F" "length (nodes_of ts) \<le> F"
    using Cons.prems(3) by (simp_all add: nodes_of_def)
  from Cons.prems(2) have "node_step fld rt t" by simp
  with hx F(1) obtain out1 H1 where
    s1: "\<forall>els. tree2Array_each F rt ''$children'' pv lvl (JRef x # els) roots (H, n)
                  = tree2Array_each F rt ''$children'' pv lvl els (roots @ out1)
                      (H1, n + length (preorder t))"
    and l1: "length H \<le> length H1" and t1: "take (length H) H1 = H"
    and c1: "list_all2 (copy_of fld H1) out1 (preorder t)"
    unfolding node_step_def by blast
  have kids1: "list_all2 (\<lambda>x t. repr_node fld H1 {} x t) xs' ts"
    using hxs
  proof (rule list.rel_mono_strong)
    fix y t assume "repr_node fld H {} y t"
    from repr_node_extend[OF this l1 t1] show "repr_node fld H1 {} y t" .
  qed
  have steps': "\<forall>t\<in>set ts. node_step fld rt t" using Cons.prems(2) by simp
  from Cons.IH[OF kids1 steps' F(2), of "roots @ out1" "n + length (preorder t)"]
  obtain out2 H2 where
    s2: "tree2Array_each F rt ''$children'' pv lvl (map JRef xs') (roots @ out1)
                  (H1, n + length (preorder t))
           = Some (Inr ((roots @ out1) @ out2), H2,
                   (n + length (preorder t)) + length (nodes_of ts))"
    and l2: "length H1 \<le> length H2" and t2: "take (length H1) H2 = H1"
    and c2: "list_all2 (copy_of fld H2) out2 (nodes_of ts)"
    by blast
  have run: "tree2Array_each F rt ''$children'' pv lvl (map JRef xs) roots (H, n)
      = Some (Inr (roots @ (out1 @ out2)), H2, n + length (nodes_of (t # ts)))"
    unfolding xs using s1 s2 by (simp add: nodes_of_def add.assoc)
  have "take (length H) H2 = take (length H) (take (length H1) H2)" using l1 by (simp add: min_def)
  then have t: "take (length H) H2 = H" using t1 t2 by simp
  have "list_all2 (copy_of fld H2) out1 (preorder t)"
    using c1
  proof (rule list.rel_mono_strong)
    fix node a assume "copy_of fld H1 node a"
    from copy_of_extend[OF this t2 l2] show "copy_of fld H2 node a" .
  qed
  with c2 have c: "list_all2 (copy_of fld H2) (out1 @ out2) (nodes_of (t # ts))"
    by (simp add: nodes_of_def list_all2_appendI)
  from run l1 l2 t c show ?case by (metis order_trans)
qed

lemma node_step_RNode:
  assumes IH: "\<forall>t\<in>set ts. node_step fld rt t"
  shows "node_step fld rt (RNode a ts)"
  unfolding node_step_def
proof (intro allI impI)
  fix x H n pv lvl roots F
  let ?ch = "''$children''"
  assume "repr_node fld H {} x (RNode a ts) \<and> length (preorder (RNode a ts)) \<le> F"
  then have rp: "repr_node fld H {} x (RNode a ts)" and Fl: "Suc (length (nodes_of ts)) \<le> F"
    by (simp_all add: nodes_of_def)
  then obtain F' where F: "F = Suc F'" and F': "length (nodes_of ts) \<le> F'"
    by (cases F) simp_all
  from rp obtain fs c ys where
    x: "x < length H" "H ! x = Obj fs" and nf: "node_fields fs"
    and lk: "\<forall>k. k \<noteq> ?ch \<longrightarrow> lookup_prop fs k = fld a k"
    and ch: "map_of fs ?ch = Some (JRef c)"
    and c: "c \<noteq> x" "c < length H" "H ! c = Arr (map JRef ys)"
    and kids: "list_all2 (\<lambda>y t. repr_node fld H (insert c (insert x {})) y t) ys ts"
    unfolding repr_node.simps by auto
  let ?node = "length H"
  let ?fs3 = "AList.update ''$parent_id'' pv (AList.update ''$id'' (num_of_nat (Suc n)) fs)"
  let ?h3 = "H @ [Obj ?fs3]"
  have own: "own_props rt H (JRef x) = fs" using x by simp
  have h3: "?h3 = set_field (set_field (H @ [Obj (own_props rt H (JRef x))]) (length H) ''$id''
                (num_of_nat (Suc n))) (length H) ''$parent_id'' pv"
    unfolding own by (simp add: set_field_def)
  have get: "js_get rt ?h3 (JRef x) ?ch = Inr (JRef c)"
    using x ch by (simp add: nth_append lookup_prop_def)
  have l3: "length H \<le> length ?h3" and t3: "take (length H) ?h3 = H" by simp_all
  have c3: "c < length ?h3" "?h3 ! c = Arr (map JRef ys)" using c(2,3) by (simp_all add: nth_append)
  have kids3: "list_all2 (\<lambda>y t. repr_node fld ?h3 {c} y t) ys ts"
    using kids
  proof (rule list.rel_mono_strong)
    fix y t assume "repr_node fld H (insert c (insert x {})) y t"
    then have "repr_node fld H {c} y t" by (rule repr_node_mono) simp
    from repr_node_extend[OF this l3 t3] show "repr_node fld ?h3 {c} y t" .
  qed
  from json_roundtrip_array[OF c3 kids3] obtain c' ys' h4 where
    rt: "json_roundtrip ?h3 (JRef c) = Inr (JRef c', h4)"
    and c': "length ?h3 \<le> c'" "c' < length h4" and t4: "take (length ?h3) h4 = ?h3"
    and a4: "h4 ! c' = Arr (map JRef ys')"
    and r4: "\<forall>S'. (\<forall>s\<in>S'. s < length ?h3) \<longrightarrow>
               list_all2 (\<lambda>y t. repr_node fld h4 S' y t) ys' ts"
    by blast
  let ?h5 = "delete_field h4 ?node ?ch"
  have l4: "length ?h3 \<le> length h4" using c' by simp
  have n4: "h4 ! ?node = Obj ?fs3" using nth_of_take[OF t4, of ?node] by simp
  have h5: "?h5 = h4[?node := Obj (AList.delete ?ch ?fs3)]"
    using n4 l4 by (simp add: delete_field_def)
  have a5: "array_elems ?h5 (JRef c') = Inr (map JRef ys')"
    using c' a4 by (simp add: h5)
  have "list_all2 (\<lambda>y t. repr_node fld h4 {?node} y t) ys' ts" using r4 by simp
  then have kids5: "list_all2 (\<lambda>y t. repr_node fld ?h5 {} y t) ys' ts"
  proof (rule list.rel_mono_strong)
    fix y t assume "repr_node fld h4 {?node} y t"
    then have "repr_node fld ?h5 {?node} y t"
      by (rule repr_node_stable) (simp_all add: h5)
    then show "repr_node fld ?h5 {} y t" by (rule repr_node_mono) simp
  qed
  from each_of_steps[where rt = rt and pv = "num_of_nat (Suc n)" and lvl = "Suc lvl"
      and roots = "[]" and n = "Suc n", OF kids5 IH F']
  obtain out2 H6 where
    e: "tree2Array_each F' rt ?ch (num_of_nat (Suc n)) (Suc lvl) (map JRef ys') [] (?h5, Suc n)
          = Some (Inr ([] @ out2), H6, Suc n + length (nodes_of ts))"
    and l6: "length ?h5 \<le> length H6" and t6: "take (length ?h5) H6 = ?h5"
    and c6: "list_all2 (copy_of fld H6) out2 (nodes_of ts)"
    by blast
  have rec: "tree2Array F rt (JRef c') ?ch (num_of_nat (Suc n)) (Suc lvl) (?h5, Suc n)
      = Some (Inr out2, H6, Suc n + length (nodes_of ts))"
    unfolding F using a5 e by simp
  have truthy: "truthy (JRef c)" by simp
  from tree2Array_each_Cons_sub[where roots = roots and level = lvl, OF get truthy rt rec h3]
  have step: "\<forall>els. tree2Array_each F rt ?ch pv lvl (JRef x # els) roots (H, n)
       = tree2Array_each F rt ?ch pv lvl els (roots @ (?node # out2))
           (H6, n + length (preorder (RNode a ts)))"
    by (simp add: nodes_of_def)
  have lH: "length H \<le> length H6" using l6 l4 by simp
  have "take (length H) H6 = take (length H) (take (length ?h5) H6)"
    using l4 by (simp add: min_def)
  also have "\<dots> = take (length H) ?h5" using t6 by simp
  also have "\<dots> = take (length H) h4" by (simp add: h5)
  also have "\<dots> = take (length H) (take (length ?h3) h4)" by (simp add: min_def)
  also have "\<dots> = H" using t4 by simp
  finally have tH: "take (length H) H6 = H" .
  have n5: "?node < length ?h5" using l4 by simp
  have "H6 ! ?node = ?h5 ! ?node" using nth_of_take[OF t6 n5] .
  then have n6: "H6 ! ?node = Obj (AList.delete ?ch ?fs3)" using l4 by (simp add: h5)
  have "copy_of fld H6 ?node a"
    unfolding copy_of_def
  proof (intro conjI allI impI)
    show "?node < length H6" using n5 l6 by simp
    fix k assume k: "k \<notin> {''$children'', ''$id'', ''$parent_id''}"
    then have "get_field H6 ?node k = lookup_prop fs k"
      using n6 n5 l6
      by (simp add: get_field_def lookup_prop_def delete_conv' update_conv')
    with lk k show "get_field H6 ?node k = fld a k" by simp
  qed
  with c6 have "list_all2 (copy_of fld H6) (?node # out2) (preorder (RNode a ts))"
    by (simp add: nodes_of_def)
  with step lH tH show "\<exists>out H'.
           (\<forall>els. tree2Array_each F rt ''$children'' pv lvl (JRef x # els) roots (H, n)
                  = tree2Array_each F rt ''$children'' pv lvl els (roots @ out)
                      (H', n + length (preorder (RNode a ts)))) \<and>
           length H \<le> length H' \<and> take (length H) H' = H \<and>
           list_all2 (copy_of fld H') out (preorder (RNode a ts))"
    by blast
qed

lemma node_step_all: "node_step fld rt t"
  by (induction t) (simp add: node_step_RNode)

text \<open>\<^verbatim>\<open>tree2Array\<close> on an array of objects that hold the trees \<open>ts\<close>: it returns the copies
  of their records, parents before children.\<close>

lemma tree2Array_repr:
  assumes r: "r < length H" "H ! r = Arr (map JRef xs)"
    and kids: "list_all2 (\<lambda>x t. repr_node fld H {} x t) xs ts"
  shows "\<exists>out H'. tree2Array (Suc (length (nodes_of ts))) rt (JRef r) ''$children'' pv lvl (H, n)
                 = Some (Inr out, H', n + length (nodes_of ts)) \<and>
       length H \<le> length H' \<and> take (length H) H' = H \<and>
       list_all2 (copy_of fld H') out (nodes_of ts)"
proof -
  have steps: "\<forall>t\<in>set ts. node_step fld rt t" using node_step_all by blast
  from each_of_steps[where rt = rt and pv = pv and lvl = lvl and roots = "[]" and n = n,
      OF kids steps order_refl] r show ?thesis by simp
qed

section \<open>The fields of the records that array2Tree has visited\<close>

lemma node_fields_update:
  assumes "node_fields fs" "k = ''$children'' \<or> plain v"
  shows "node_fields (AList.update k v fs)"
proof -
  have "set (AList.update k v fs) \<subseteq> insert (k, v) (set fs)" by (induction fs) auto
  with assms show ?thesis
    by (auto simp: node_fields_def list_all_iff distinct_update)
qed

lemma node_at_set_field:
  assumes "node_at h b" "k = ''$children'' \<or> plain v"
  shows "node_at (set_field h a k v) b"
proof (cases "a = b")
  case True
  from assms(1) obtain fs where "b < length h" "h ! b = Obj fs" "node_fields fs"
    by (auto simp: node_at_def is_obj_def split: cell.splits)
  with True node_fields_update[OF _ assms(2)] show ?thesis
    by (simp add: node_at_def set_field_def is_obj_def)
next
  case False
  with assms(1) show ?thesis
    by (auto simp: node_at_def set_field_def is_obj_def split: cell.splits)
qed

lemma node_at_alloc: "node_at h b \<Longrightarrow> node_at (h @ [c]) b"
  by (auto simp: node_at_def is_obj_def nth_append)

lemma plain_num_of_nat [simp]: "plain (num_of_nat n)"
  by (simp add: num_of_nat_def)

lemma node_at_mark_leaf: "node_at h b \<Longrightarrow> node_at (mark_leaf h idKey sw xs) b"
  by (simp add: mark_leaf_def node_at_set_field split: option.splits)

lemma node_at_child:
  assumes "node_at h2 b"
  shows "node_at (if truthy sub then set_field h2 el ''$children'' sub
             else set_field (h2 @ [Arr []]) el ''$children'' (JRef (length h2))) b"
  using assms by (simp add: node_at_set_field node_at_alloc)

lemma tree_each_fields:
  assumes call: "\<forall>sw level h v h'.
      array2Tree f rt arrIn idKey parentKey sw level h = Some (v, h') \<longrightarrow>
      (\<forall>b. node_at h b \<longrightarrow> node_at h' b)"
  shows "tree_each f rt arrIn idKey parentKey level els h = Some h' \<Longrightarrow>
      (\<forall>b. node_at h b \<longrightarrow> node_at h' b)"
proof (induction els arbitrary: h)
  case Nil
  then show ?case by simp
next
  case (Cons el els)
  from Cons.prems obtain sub h2 where
    sub: "array2Tree f rt arrIn idKey parentKey
       (get_field (set_field h el ''$level'' (num_of_nat level)) el idKey) (level + 1)
       (set_field h el ''$level'' (num_of_nat level)) = Some (sub, h2)"
    and rest: "tree_each f rt arrIn idKey parentKey level els
       (if truthy sub then set_field h2 el ''$children'' sub
        else set_field (h2 @ [Arr []]) el ''$children'' (JRef (length h2))) = Some h'"
    by (rule tree_each_ConsE)
  show ?case
  proof (intro allI impI)
    fix b assume "node_at h b"
    then have "node_at (set_field h el ''$level'' (num_of_nat level)) b"
      by (simp add: node_at_set_field)
    with call sub have "node_at h2 b" by blast
    then have "node_at (if truthy sub then set_field h2 el ''$children'' sub
        else set_field (h2 @ [Arr []]) el ''$children'' (JRef (length h2))) b"
      by (rule node_at_child)
    with Cons.IH[OF rest] show "node_at h' b" by blast
  qed
qed

lemma array2Tree_fields:
  "array2Tree f rt arrIn idKey parentKey sw level h = Some (v, h') \<Longrightarrow>
     (\<forall>b. node_at h b \<longrightarrow> node_at h' b)"
proof (induction f arbitrary: sw level h v h')
  case 0
  then show ?case by simp
next
  case (Suc f)
  have call: "\<forall>sw level h v h'.
      array2Tree f rt arrIn idKey parentKey sw level h = Some (v, h') \<longrightarrow>
      (\<forall>b. node_at h b \<longrightarrow> node_at h' b)"
    using Suc.IH by blast
  show ?case
  proof (cases "filter (matches4 rt h parentKey sw) arrIn = []")
    case True
    with Suc.prems have "h' = mark_leaf h idKey sw arrIn"
      unfolding array2Tree_Suc by simp
    then show ?thesis by (simp add: node_at_mark_leaf)
  next
    case False
    with Suc.prems have
      "tree_each f rt arrIn idKey parentKey level (filter (matches4 rt h parentKey sw) arrIn)
         (h @ [Arr (map JRef (filter (matches4 rt h parentKey sw) arrIn))]) = Some h'"
      unfolding array2Tree_Suc by (auto split: option.splits)
    from tree_each_fields[where f = f, OF call this] node_at_alloc show ?thesis by blast
  qed
qed

lemma flat_records_node_at: "flat_records h arrIn \<Longrightarrow> a \<in> set arrIn \<Longrightarrow> node_at h a"
  by (auto simp: flat_records_def node_at_def is_obj_def node_fields_def list_all_iff
           split: cell.splits)

section \<open>The tree of a record\<close>

lemma ex_list_all2: "\<forall>x\<in>set xs. \<exists>y. P x y \<Longrightarrow> \<exists>ys. list_all2 P xs ys"
  by (induction xs) (auto simp: list_all2_Cons1)

lemma trees_distinct:
  "list_all2 (\<lambda>k t. distinct (preorder t) \<and> set (preorder t) = Sf k) ks ts \<Longrightarrow> distinct ks \<Longrightarrow>
     \<forall>k\<in>set ks. \<forall>k'\<in>set ks. k \<noteq> k' \<longrightarrow> Sf k \<inter> Sf k' = {} \<Longrightarrow>
     distinct (nodes_of ts) \<and> set (nodes_of ts) = (\<Union>k\<in>set ks. Sf k)"
proof (induction rule: list_all2_induct)
  case Nil
  then show ?case by (simp add: nodes_of_def)
next
  case (Cons k ks t ts)
  then have IH: "distinct (nodes_of ts)" "set (nodes_of ts) = (\<Union>k\<in>set ks. Sf k)" by auto
  have "Sf k \<inter> (\<Union>k\<in>set ks. Sf k) = {}" using Cons.prems by fastforce
  with IH Cons.hyps(1) show ?case by (simp add: nodes_of_def)
qed

lemma tree_of_record:
  assumes G: "gforest m idf d sw0 arrIn"
    and nodes: "\<forall>a\<in>set arrIn. node_ok marks m idf arrIn h1 a \<and> node_at h1 a"
    and dist: "distinct arrIn"
  shows "a \<in> set arrIn \<Longrightarrow>
     \<exists>t. (\<forall>S. off_path h1 arrIn d S (d a) \<longrightarrow> repr_node (get_field h1) h1 S a t) \<and>
         distinct (preorder t) \<and>
         set (preorder t) = insert a {b. desc m idf arrIn (idf a) b}"
proof (induction a rule: measure_induct_rule[of "\<lambda>a. Max (d ` set arrIn) - d a"])
  case (less a)
  let ?ch = "''$children''"
  let ?ks = "filter (m (idf a)) arrIn"
  let ?Sf = "\<lambda>k. insert k {b. desc m idf arrIn (idf k) b}"
  let ?Q = "\<lambda>k t. (\<forall>S. off_path h1 arrIn d S (d k) \<longrightarrow> repr_node (get_field h1) h1 S k t) \<and>
         distinct (preorder t) \<and> set (preorder t) = ?Sf k"
  have a: "a \<in> set arrIn" by fact
  have deeper: "d a < d k" if "k \<in> set ?ks" for k
    using gforest_depth[OF G _ a, of k] that by simp
  have "\<forall>k\<in>set ?ks. \<exists>t. ?Q k t"
  proof
    fix k assume k: "k \<in> set ?ks"
    then have kin: "k \<in> set arrIn" by simp
    then have "d k \<le> Max (d ` set arrIn)" by simp
    with deeper[OF k] have "Max (d ` set arrIn) - d k < Max (d ` set arrIn) - d a" by simp
    from less.IH[OF this kin] show "\<exists>t. ?Q k t" .
  qed
  then have "\<exists>ts. list_all2 ?Q ?ks ts" by (rule ex_list_all2)
  then obtain ts where ts: "list_all2 ?Q ?ks ts" ..
  from nodes a have ok: "node_ok marks m idf arrIn h1 a" and at: "node_at h1 a" by blast+
  from ok obtain c where c: "get_field h1 a ?ch = JRef c" "c < length h1"
      "h1 ! c = Arr (map JRef ?ks)"
    unfolding node_ok_iff by blast
  from at obtain fs where fs: "a < length h1" "h1 ! a = Obj fs" "node_fields fs"
    by (auto simp: node_at_def is_obj_def split: cell.splits)
  have lk: "\<forall>k. k \<noteq> ?ch \<longrightarrow> lookup_prop fs k = get_field h1 a k"
    using fs by (simp add: get_field_def lookup_prop_def)
  have chm: "map_of fs ?ch = Some (JRef c)"
    using c(1) fs by (auto simp: get_field_def split: option.splits)
  have repr: "repr_node (get_field h1) h1 S a (RNode a ts)" if S: "off_path h1 arrIn d S (d a)" for S
  proof -
    have 1: "a \<notin> S"
    proof
      assume "a \<in> S"
      with S have "(a \<in> set arrIn \<and> d a < d a) \<or> (\<exists>xs. h1 ! a = Arr xs)"
        unfolding off_path_def by blast
      with fs(2) show False by simp
    qed
    have 2: "c \<notin> insert a S"
    proof
      assume "c \<in> insert a S"
      with c(3) fs(2) have "c \<in> S" by auto
      with S have "(c \<in> set arrIn \<and> d c < d a) \<or>
          (\<exists>xs k. h1 ! c = Arr xs \<and> JRef k \<in> set xs \<and> k \<in> set arrIn \<and> d k \<le> d a)"
        unfolding off_path_def by blast
      then show False
      proof
        assume "c \<in> set arrIn \<and> d c < d a"
        with nodes have "node_at h1 c" by blast
        with c(3) show False by (simp add: node_at_def is_obj_def)
      next
        assume "\<exists>xs k. h1 ! c = Arr xs \<and> JRef k \<in> set xs \<and> k \<in> set arrIn \<and> d k \<le> d a"
        with c(3) obtain k where "k \<in> set ?ks" "d k \<le> d a" by auto
        with deeper[of k] show False by simp
      qed
    qed
    have 3: "list_all2 (\<lambda>y t. repr_node (get_field h1) h1 (insert c (insert a S)) y t) ?ks ts"
      using ts
    proof (rule list.rel_mono_strong)
      fix k t assume k: "k \<in> set ?ks" and Q: "?Q k t"
      have "off_path h1 arrIn d (insert c (insert a S)) (d k)"
        unfolding off_path_def
      proof
        fix s assume "s \<in> insert c (insert a S)"
        then consider "s = c" | "s = a" | "s \<in> S" by blast
        then show "(s \<in> set arrIn \<and> d s < d k) \<or>
          (\<exists>xs k'. s < length h1 \<and> h1 ! s = Arr xs \<and> JRef k' \<in> set xs \<and> k' \<in> set arrIn \<and>
                   d k' \<le> d k)"
        proof cases
          case 1
          have "JRef k \<in> set (map JRef ?ks)" "k \<in> set arrIn" using k by simp_all
          with c(2,3) 1 show ?thesis by blast
        next
          case 2
          with a deeper[OF k] show ?thesis by blast
        next
          case 3
          with S have "(s \<in> set arrIn \<and> d s < d a) \<or>
            (\<exists>xs k'. s < length h1 \<and> h1 ! s = Arr xs \<and> JRef k' \<in> set xs \<and> k' \<in> set arrIn \<and>
                   d k' \<le> d a)"
            unfolding off_path_def by blast
          with deeper[OF k] show ?thesis by (meson less_trans less_imp_le order_trans)
        qed
      qed
      with Q show "repr_node (get_field h1) h1 (insert c (insert a S)) k t" by blast
    qed
    from 1 2 3 fs lk chm c(2,3) show ?thesis unfolding repr_node.simps by blast
  qed
  have sw: "idf a = sw0 \<or> (\<exists>c\<in>set arrIn. idf a = idf c)" using a by blast
  have disj: "\<forall>k\<in>set ?ks. \<forall>k'\<in>set ?ks. k \<noteq> k' \<longrightarrow> ?Sf k \<inter> ?Sf k' = {}"
  proof (intro ballI impI)
    fix k k' assume k: "k \<in> set ?ks" and k': "k' \<in> set ?ks" and ne: "k \<noteq> k'"
    then have kk: "k \<in> set arrIn" "m (idf a) k" "k' \<in> set arrIn" "m (idf a) k'" by simp_all
    from sibling_not_below[OF G sw kk(1,2) kk(3,4)] sibling_not_below[OF G sw kk(3,4) kk(1,2)]
      siblings_disjoint[OF G sw kk(1,2) kk(3,4) ne] ne
    show "?Sf k \<inter> ?Sf k' = {}" by auto
  qed
  have "list_all2 (\<lambda>k t. distinct (preorder t) \<and> set (preorder t) = ?Sf k) ?ks ts"
    using ts by (rule list.rel_mono_strong) blast
  from trees_distinct[OF this _ disj] dist have
    dts: "distinct (nodes_of ts)" and sts: "set (nodes_of ts) = (\<Union>k\<in>set ?ks. ?Sf k)"
    by simp_all
  have "a \<notin> (\<Union>k\<in>set ?ks. ?Sf k)"
  proof
    assume "a \<in> (\<Union>k\<in>set ?ks. ?Sf k)"
    then obtain k where k: "k \<in> set ?ks" and alt: "a = k \<or> desc m idf arrIn (idf k) a"
      by auto
    from alt show False
    proof
      assume "a = k"
      with deeper[OF k] show False by simp
    next
      assume "desc m idf arrIn (idf k) a"
      from desc_depth[OF G _ this] k deeper[OF k] show False by simp
    qed
  qed
  with dts sts have d: "distinct (preorder (RNode a ts))" by (simp add: nodes_of_def)
  have "(\<Union>k\<in>set ?ks. ?Sf k) = {b. desc m idf arrIn (idf a) b}"
  proof (intro set_eqI iffI)
    fix b assume "b \<in> (\<Union>k\<in>set ?ks. ?Sf k)"
    then obtain k where k: "k \<in> set arrIn" "m (idf a) k"
      and "b = k \<or> desc m idf arrIn (idf k) b" by auto
    then show "b \<in> {b. desc m idf arrIn (idf a) b}"
      using desc_child[of k arrIn m "idf a" idf]
        desc_first[where m = m and idf = idf and sw = "idf a" and a = b, OF k] by blast
  next
    fix b assume "b \<in> {b. desc m idf arrIn (idf a) b}"
    then show "b \<in> (\<Union>k\<in>set ?ks. ?Sf k)"
      using desc_unfold[of m idf arrIn "idf a" b] by auto
  qed
  with sts have s: "set (preorder (RNode a ts)) = insert a {b. desc m idf arrIn (idf a) b}"
    by (simp add: nodes_of_def)
  from repr d s show ?case by blast
qed

lemma forest_of_input:
  assumes G: "gforest m idf d sw0 arrIn"
    and nodes: "\<forall>a\<in>set arrIn. node_ok marks m idf arrIn h1 a \<and> node_at h1 a"
    and dist: "distinct arrIn"
    and att: "\<forall>a\<in>set arrIn. desc m idf arrIn sw0 a"
  shows "\<exists>ts. list_all2 (\<lambda>x t. repr_node (get_field h1) h1 {} x t) (filter (m sw0) arrIn) ts \<and>
     mset (nodes_of ts) = mset arrIn"
proof -
  let ?ks = "filter (m sw0) arrIn"
  let ?Sf = "\<lambda>k. insert k {b. desc m idf arrIn (idf k) b}"
  let ?Q = "\<lambda>k t. (\<forall>S. off_path h1 arrIn d S (d k) \<longrightarrow> repr_node (get_field h1) h1 S k t) \<and>
         distinct (preorder t) \<and> set (preorder t) = ?Sf k"
  have "\<forall>k\<in>set ?ks. \<exists>t. ?Q k t" using tree_of_record[OF G nodes dist] by simp
  then have "\<exists>ts. list_all2 ?Q ?ks ts" by (rule ex_list_all2)
  then obtain ts where ts: "list_all2 ?Q ?ks ts" ..
  have r: "list_all2 (\<lambda>x t. repr_node (get_field h1) h1 {} x t) ?ks ts"
    using ts
  proof (rule list.rel_mono_strong)
    fix k t assume "?Q k t"
    moreover have "off_path h1 arrIn d {} (d k)" by (simp add: off_path_def)
    ultimately show "repr_node (get_field h1) h1 {} k t" by blast
  qed
  have sw: "sw0 = sw0 \<or> (\<exists>c\<in>set arrIn. sw0 = idf c)" by simp
  have disj: "\<forall>k\<in>set ?ks. \<forall>k'\<in>set ?ks. k \<noteq> k' \<longrightarrow> ?Sf k \<inter> ?Sf k' = {}"
  proof (intro ballI impI)
    fix k k' assume k: "k \<in> set ?ks" and k': "k' \<in> set ?ks" and ne: "k \<noteq> k'"
    then have kk: "k \<in> set arrIn" "m sw0 k" "k' \<in> set arrIn" "m sw0 k'" by simp_all
    from sibling_not_below[OF G sw kk(1,2) kk(3,4)] sibling_not_below[OF G sw kk(3,4) kk(1,2)]
      siblings_disjoint[OF G sw kk(1,2) kk(3,4) ne] ne
    show "?Sf k \<inter> ?Sf k' = {}" by auto
  qed
  have "list_all2 (\<lambda>k t. distinct (preorder t) \<and> set (preorder t) = ?Sf k) ?ks ts"
    using ts by (rule list.rel_mono_strong) blast
  from trees_distinct[OF this _ disj] dist have
    dts: "distinct (nodes_of ts)" and sts: "set (nodes_of ts) = (\<Union>k\<in>set ?ks. ?Sf k)"
    by simp_all
  have "(\<Union>k\<in>set ?ks. ?Sf k) = set arrIn"
  proof (intro set_eqI iffI)
    fix b assume "b \<in> (\<Union>k\<in>set ?ks. ?Sf k)"
    then show "b \<in> set arrIn" using desc_in[of m idf arrIn _ b] by auto
  next
    fix b assume "b \<in> set arrIn"
    with att have "desc m idf arrIn sw0 b" by blast
    then show "b \<in> (\<Union>k\<in>set ?ks. ?Sf k)"
      using desc_unfold[of m idf arrIn sw0 b] by auto
  qed
  with sts dts dist have "mset (nodes_of ts) = mset arrIn"
    by (simp add: set_eq_iff_mset_eq_distinct)
  with r show ?thesis by blast
qed

section \<open>From the array to the tree and back\<close>

text \<open>
  C6, as the code has it. In \<^verbatim>\<open>[{id: 1, parent_id: null}, {id: 2, parent_id: 7}]\<close> the
  identifiers are unique and the parent references acyclic. No record has the identifier
  7, so \<^verbatim>\<open>array2Tree\<close> never reaches the second record, and \<^verbatim>\<open>tree2Array\<close> returns one
  node for the two records of the input.
\<close>

theorem C6_orphan_is_lost:
  "unique_ids h_one_orphan ''id'' [0, 1] \<and>
   acyclic_parents h_one_orphan ''id'' ''parent_id'' d_forest [0, 1] \<and>
   length (projr (fst (the
     (tree2Array 3 rt_sample
        (fst (the (array2Tree 3 rt_sample [0, 1] ''id'' ''parent_id'' JNull 1 h_one_orphan)))
        ''$children'' JNull 1
        (snd (the (array2Tree 3 rt_sample [0, 1] ''id'' ''parent_id'' JNull 1 h_one_orphan)),
         0))))) = 1"
  by code_simp

text \<open>
  C6, amended. Let the input be a non-empty list that holds each record once, the records
  being flat objects (one entry for each key, the values \<^verbatim>\<open>null\<close>, booleans, finite
  numbers or strings), with unique identifiers, acyclic parent references (a depth \<open>d\<close>
  that grows from parent to child), every record either a top-level record or the child
  of a record of the input, never both, and key names other than \<^verbatim>\<open>$level\<close>,
  \<^verbatim>\<open>$children\<close> and \<^verbatim>\<open>$is_leaf\<close>. Then \<^verbatim>\<open>array2Tree\<close> called with \<^verbatim>\<open>startWith = null\<close>
  returns a tree, \<^verbatim>\<open>tree2Array\<close> called on it with the children field \<^verbatim>\<open>$children\<close>
  returns a list \<open>out\<close> of new objects and has counted one identifier for each record,
  and \<open>out\<close> matches a permutation \<open>ps\<close> of the input, node by node: the node has the
  value of the record, as it was in the input, in every field other than \<^verbatim>\<open>$level\<close>,
  \<^verbatim>\<open>$children\<close>, \<^verbatim>\<open>$is_leaf\<close>, \<^verbatim>\<open>$id\<close> and \<^verbatim>\<open>$parent_id\<close>.
\<close>

theorem C6_round_trip:
  assumes R: "records_ok h arrIn"
    and F: "flat_records h arrIn"
    and ne: "arrIn \<noteq> []"
    and keys: "idKey \<notin> set build_meta" "parentKey \<notin> set build_meta"
    and U: "unique_ids h idKey arrIn"
    and A: "acyclic_parents h idKey parentKey d arrIn"
    and P: "plain_parents rt h idKey parentKey arrIn"
    and T: "all_attached rt h idKey parentKey arrIn"
  shows "\<exists>v h1 out h2.
      array2Tree (length arrIn + 1) rt arrIn idKey parentKey JNull 1 h = Some (v, h1) \<and>
      tree2Array (length arrIn + 1) rt v ''$children'' JNull 1 (h1, myId)
        = Some (Inr out, h2, myId + length arrIn) \<and>
      (\<exists>ps. mset ps = mset arrIn \<and>
         list_all2 (\<lambda>node a. \<forall>k. k \<notin> set flat_meta \<longrightarrow> get_field h2 node k = get_field h a k)
           out ps)"
proof -
  let ?m = "matches4 rt h parentKey" and ?idf = "\<lambda>a. get_field h a idKey"
  have dist: "distinct arrIn" and objs: "\<forall>a\<in>set arrIn. is_obj h a"
    using R by (simp_all add: records_ok_def)
  have prim: "\<forall>a\<in>set arrIn. \<not> is_ref (get_field h a parentKey)"
    using P by (simp add: plain_parents_def)
  have G: "gforest ?m ?idf d JNull arrIn" using gforest_matches4[OF U A P] .
  have "span ?m d arrIn JNull < length arrIn + 1"
    using span_le[of ?m d arrIn JNull] by simp
  from array2Tree_total[OF refl refl keys prim depth_matches4[OF U A] keeps_refl this]
  obtain v h1 where
    run1: "array2Tree (length arrIn + 1) rt arrIn idKey parentKey JNull 1 h = Some (v, h1)"
    by blast
  have att: "\<forall>a\<in>set arrIn. desc ?m ?idf arrIn JNull a"
    using attached_below_root[OF G T] by blast
  from array2Tree_nodes[where marks = False, OF refl refl _ objs keys prim keeps_refl run1]
  have D: "\<forall>a. desc ?m ?idf arrIn JNull a \<longrightarrow> node_ok False ?m ?idf arrIn h1 a" by blast
  have nodes: "\<forall>a\<in>set arrIn. node_ok False ?m ?idf arrIn h1 a \<and> node_at h1 a"
    using D att flat_records_node_at[OF F] array2Tree_fields[OF run1] by blast
  from forest_of_input[OF G nodes dist att] obtain ts where
    kids: "list_all2 (\<lambda>x t. repr_node (get_field h1) h1 {} x t) (filter (?m JNull) arrIn) ts"
    and ms: "mset (nodes_of ts) = mset arrIn"
    by blast
  from ne obtain a where "a \<in> set arrIn" by (cases arrIn) auto
  with att have "desc ?m ?idf arrIn JNull a" by blast
  then obtain k where "k \<in> set arrIn" "?m JNull k"
    using desc_unfold[of ?m ?idf arrIn JNull a] by blast
  then have "k \<in> set (filter (?m JNull) arrIn)" by simp
  then have roots: "filter (?m JNull) arrIn \<noteq> []" by (metis empty_iff empty_set)
  with array2Tree_result[OF run1] have v: "v = JRef (length h)" and r: "length h < length h1"
    "h1 ! length h = Arr (map JRef (filter (?m JNull) arrIn))"
    by blast+
  have len: "length (nodes_of ts) = length arrIn" using ms by (rule mset_eq_length)
  from tree2Array_repr[where rt = rt and pv = JNull and lvl = 1 and n = myId, OF r kids]
  obtain out h2 where
    run2: "tree2Array (length arrIn + 1) rt v ''$children'' JNull 1 (h1, myId)
        = Some (Inr out, h2, myId + length arrIn)"
    and c: "list_all2 (copy_of (get_field h1) h2) out (nodes_of ts)"
    unfolding len v by auto
  from array2Tree_keeps[OF run1] have
    same: "\<forall>a k. k \<notin> set build_meta \<longrightarrow> get_field h1 a k = get_field h a k"
    unfolding keeps_def by blast
  have "list_all2 (\<lambda>node a. \<forall>k. k \<notin> set flat_meta \<longrightarrow> get_field h2 node k = get_field h a k)
      out (nodes_of ts)"
    using c
  proof (rule list.rel_mono_strong)
    fix node a assume "copy_of (get_field h1) h2 node a"
    then show "\<forall>k. k \<notin> set flat_meta \<longrightarrow> get_field h2 node k = get_field h a k"
      using same by (simp add: copy_of_def flat_meta_def build_meta_def)
  qed
  with run1 run2 ms show ?thesis by blast
qed

theorem C6_round_trip_witness:
  "records_ok h_forest [0, 1, 2] \<and> flat_records h_forest [0, 1, 2] \<and>
   unique_ids h_forest ''id'' [0, 1, 2] \<and>
   acyclic_parents h_forest ''id'' ''parent_id'' d_forest [0, 1, 2] \<and>
   plain_parents rt_sample h_forest ''id'' ''parent_id'' [0, 1, 2] \<and>
   all_attached rt_sample h_forest ''id'' ''parent_id'' [0, 1, 2] \<and>
   length (projr (fst (the
     (tree2Array 4 rt_sample
        (fst (the (array2Tree 4 rt_sample [0, 1, 2] ''id'' ''parent_id'' JNull 1 h_forest)))
        ''$children'' JNull 1
        (snd (the (array2Tree 4 rt_sample [0, 1, 2] ''id'' ''parent_id'' JNull 1 h_forest)),
         0))))) = 3"
proof -
  have R: "records_ok h_forest [0, 1, 2]" by code_simp
  have F: "flat_records h_forest [0, 1, 2]" by code_simp
  have U: "unique_ids h_forest ''id'' [0, 1, 2]" by code_simp
  have A: "acyclic_parents h_forest ''id'' ''parent_id'' d_forest [0, 1, 2]" by code_simp
  have P: "plain_parents rt_sample h_forest ''id'' ''parent_id'' [0, 1, 2]" by code_simp
  have T: "all_attached rt_sample h_forest ''id'' ''parent_id'' [0, 1, 2]" by code_simp
  have k: "[0::nat, 1, 2] \<noteq> []" "''id'' \<notin> set build_meta" "''parent_id'' \<notin> set build_meta"
    by (simp_all add: build_meta_def)
  have four: "length [0::nat, 1, 2] + 1 = 4" by simp
  from C6_round_trip[where myId = 0, OF R F k U A P T, unfolded four] obtain v h1 out h2 ps where
    run1: "array2Tree 4 rt_sample [0, 1, 2] ''id'' ''parent_id'' JNull 1 h_forest = Some (v, h1)"
    and run2: "tree2Array 4 rt_sample v ''$children'' JNull 1 (h1, 0)
        = Some (Inr out, h2, 0 + length [0::nat, 1, 2])"
    and ms: "mset ps = mset [0::nat, 1, 2]"
    and all: "list_all2 (\<lambda>node a. \<forall>k. k \<notin> set flat_meta \<longrightarrow>
                 get_field h2 node k = get_field h_forest a k) out ps"
    by blast
  have "length out = length ps" using all by (rule list_all2_lengthD)
  also have "\<dots> = 3" using mset_eq_length[OF ms] by simp
  finally have "length out = 3" .
  then have "length (projr (fst (the
     (tree2Array 4 rt_sample
        (fst (the (array2Tree 4 rt_sample [0, 1, 2] ''id'' ''parent_id'' JNull 1 h_forest)))
        ''$children'' JNull 1
        (snd (the (array2Tree 4 rt_sample [0, 1, 2] ''id'' ''parent_id'' JNull 1 h_forest)),
         0))))) = 3"
    unfolding run1 option.sel fst_conv snd_conv run2 sum.sel .
  with R F U A P T show ?thesis by (simp only: simp_thms)
qed

end
